theory Spec2Isabelle
  imports Main "HOL-Library.Word"
begin

section \<open>Errors\<close>

text \<open>
  Every Go \<^verbatim>\<open>error\<close> value, and every value the handlers panic with, is a
  constructor of one datatype.  A Go \<^verbatim>\<open>string\<close> and a \<^verbatim>\<open>[]byte\<close> are both
  sequences of bytes; both are modelled by \<^typ>\<open>string\<close>, a list of 8-bit characters.
\<close>

datatype error =
    ErrBadPattern         \<comment> \<open>\<^verbatim>\<open>path.ErrBadPattern\<close>\<close>
  | ErrRandRead           \<comment> \<open>error of \<^verbatim>\<open>rand.Read\<close>\<close>
  | ErrNewGCM             \<comment> \<open>error of \<^verbatim>\<open>cipher.NewGCM\<close>\<close>
  | ErrGenerate           \<comment> \<open>"Failed to generate a valid ciphertext"\<close>
  | ErrKeyData            \<comment> \<open>"Provided key data is invalid"\<close>
  | ErrAEADOpen           \<comment> \<open>authentication failure of \<^verbatim>\<open>aead.Open\<close>\<close>
  | ErrEOF                \<comment> \<open>\<^verbatim>\<open>binary.Read\<close> on fewer than four bytes\<close>
  | ErrTransport          \<comment> \<open>error of the upstream round trip or of reading its body\<close>
  | ErrUnmarshal          \<comment> \<open>error of \<^verbatim>\<open>json.Unmarshal\<close>\<close>
  | ErrMarshal            \<comment> \<open>error of \<^verbatim>\<open>json.Marshal\<close>\<close>

section \<open>The Go standard library functions the proxy calls\<close>

subsection \<open>\<^verbatim>\<open>utf8.DecodeRuneInString\<close>\<close>

text \<open>
  The first rune of a string and the number of bytes it takes.  The tables \<^verbatim>\<open>first\<close>
  and \<^verbatim>\<open>acceptRanges\<close> of package \<^verbatim>\<open>unicode/utf8\<close> are written as comparisons on
  the lead byte: bytes below \<^verbatim>\<open>0x80\<close> are ASCII, \<^verbatim>\<open>0xC2..0xDF\<close> start a
  two-byte, \<^verbatim>\<open>0xE0..0xEF\<close> a three-byte and \<^verbatim>\<open>0xF0..0xF4\<close> a four-byte
  sequence; every other lead byte, a short string or a continuation byte out of its
  range gives \<^verbatim>\<open>(RuneError, 1)\<close>.
\<close>

definition RuneError :: nat where
  "RuneError = 0xFFFD"

definition rune_size :: "nat \<Rightarrow> nat" where
  "rune_size s0 = (if s0 < 0xE0 then 2 else if s0 < 0xF0 then 3 else 4)"

definition accept_lo :: "nat \<Rightarrow> nat" where
  "accept_lo s0 = (if s0 = 0xE0 then 0xA0 else if s0 = 0xF0 then 0x90 else 0x80)"

definition accept_hi :: "nat \<Rightarrow> nat" where
  "accept_hi s0 = (if s0 = 0xED then 0x9F else if s0 = 0xF4 then 0x8F else 0xBF)"

definition cont_byte :: "nat \<Rightarrow> bool" where
  "cont_byte b \<longleftrightarrow> 0x80 \<le> b \<and> b \<le> 0xBF"

fun DecodeRuneInString :: "string \<Rightarrow> nat \<times> nat" where
  "DecodeRuneInString [] = (RuneError, 0)"
| "DecodeRuneInString (c0 # cs) =
     (let s0 = (of_char c0 :: nat) in
      if s0 < 0x80 then (s0, 1)
      else if s0 < 0xC2 \<or> 0xF4 < s0 then (RuneError, 1)
      else if length (c0 # cs) < rune_size s0 then (RuneError, 1)
      else
        (case cs of
           [] \<Rightarrow> (RuneError, 1)
         | c1 # cs1 \<Rightarrow>
             (let s1 = (of_char c1 :: nat) in
              if s1 < accept_lo s0 \<or> accept_hi s0 < s1 then (RuneError, 1)
              else if rune_size s0 \<le> 2 then ((s0 mod 32) * 64 + s1 mod 64, 2)
              else
                (case cs1 of
                   [] \<Rightarrow> (RuneError, 1)
                 | c2 # cs2 \<Rightarrow>
                     (let s2 = (of_char c2 :: nat) in
                      if \<not> cont_byte s2 then (RuneError, 1)
                      else if rune_size s0 \<le> 3
                        then ((s0 mod 16) * 4096 + (s1 mod 64) * 64 + s2 mod 64, 3)
                      else
                        (case cs2 of
                           [] \<Rightarrow> (RuneError, 1)
                         | c3 # cs3 \<Rightarrow>
                             (let s3 = (of_char c3 :: nat) in
                              if \<not> cont_byte s3 then (RuneError, 1)
                              else ((s0 mod 8) * 262144 + (s1 mod 64) * 4096
                                      + (s2 mod 64) * 64 + s3 mod 64, 4))))))))"

subsection \<open>\<^verbatim>\<open>path.Match\<close>\<close>

text \<open>
  \<^verbatim>\<open>getEsc\<close> reads one possibly escaped character of a character class.  It fails
  on an empty chunk, on a leading \<^verbatim>\<open>-\<close> or \<^verbatim>\<open>]\<close>, on a trailing backslash, on
  an invalid UTF-8 byte and when nothing follows the character.
\<close>

definition getEsc :: "string \<Rightarrow> error + (nat \<times> string)" where
  "getEsc chunk =
     (case chunk of
        [] \<Rightarrow> Inl ErrBadPattern
      | c # cs \<Rightarrow>
          if c = CHR ''-'' \<or> c = CHR '']'' then Inl ErrBadPattern
          else
            (let chunk1 = (if c = CHR 0x5C then cs else chunk) in
             if chunk1 = [] then Inl ErrBadPattern
             else
               (let (r, n) = DecodeRuneInString chunk1;
                    nchunk = drop n chunk1
                in if (r = RuneError \<and> n = 1) \<or> nchunk = [] then Inl ErrBadPattern
                   else Inr (r, nchunk))))"

text \<open>
  The loop of \<^verbatim>\<open>matchChunk\<close> that parses all ranges of a character class against
  the rune \<open>r\<close>; it returns whether some range held \<open>r\<close> and the chunk after the
  closing bracket.
\<close>

function classLoop :: "string \<Rightarrow> nat \<Rightarrow> bool \<Rightarrow> nat \<Rightarrow> error + (bool \<times> string)" where
  "classLoop chunk r match nrange =
     (if chunk \<noteq> [] \<and> hd chunk = CHR '']'' \<and> nrange > 0 then Inr (match, tl chunk)
      else
        (case getEsc chunk of
           Inl e \<Rightarrow> Inl e
         | Inr (lo, chunk1) \<Rightarrow>
             if hd chunk1 = CHR ''-'' then
               (case getEsc (tl chunk1) of
                  Inl e \<Rightarrow> Inl e
                | Inr (hi, chunk2) \<Rightarrow>
                    classLoop chunk2 r (match \<or> (lo \<le> r \<and> r \<le> hi)) (nrange + 1))
             else classLoop chunk1 r (match \<or> (lo \<le> r \<and> r \<le> lo)) (nrange + 1)))"
  by pat_completeness auto

lemma DecodeRuneInString_size:
  "s \<noteq> [] \<Longrightarrow> 0 < snd (DecodeRuneInString s) \<and> snd (DecodeRuneInString s) \<le> length s"
  by (cases s) (auto simp: Let_def split: list.splits)

lemma drop_rune_shorter:
  "s \<noteq> [] \<Longrightarrow> length (drop (snd (DecodeRuneInString s)) s) < length s"
  using DecodeRuneInString_size [of s] by simp

lemma getEsc_shorter: "getEsc chunk = Inr (r, rest) \<Longrightarrow> length rest < length chunk"
proof (cases chunk)
  case Nil
  assume "getEsc chunk = Inr (r, rest)"
  with Nil show ?thesis by (simp add: getEsc_def)
next
  case (Cons c cs)
  assume a: "getEsc chunk = Inr (r, rest)"
  define chunk1 where "chunk1 = (if c = CHR 0x5C then cs else chunk)"
  from a Cons have ne: "chunk1 \<noteq> []"
    and rest: "rest = drop (snd (DecodeRuneInString chunk1)) chunk1"
    by (auto simp: getEsc_def chunk1_def Let_def split_beta split: if_splits)
  have "length chunk1 \<le> length chunk"
    by (simp add: chunk1_def Cons)
  with drop_rune_shorter [OF ne] rest show ?thesis by simp
qed

termination classLoop
proof (relation "measure (\<lambda>(chunk, r, match, nrange). length chunk)", goal_cases)
  case 1
  show ?case by simp
next
  case (2 chunk r match nrange x2 lo chunk1 x2a hi chunk2)
  then have "length chunk1 < length chunk" "length chunk2 < length (tl chunk1)"
    by (auto dest: getEsc_shorter)
  then show ?case by simp
next
  case (3 chunk r match nrange x2 lo chunk1)
  then show ?case by (auto dest: getEsc_shorter)
qed

declare classLoop.simps [simp del]

lemma classLoop_shorter:
  "classLoop chunk r match nrange = Inr (m, rest) \<Longrightarrow> length rest < length chunk"
proof (induction chunk r match nrange rule: classLoop.induct)
  case (1 chunk r match nrange)
  note eq = "1.prems" [unfolded classLoop.simps [of chunk r match nrange]]
  show ?case
  proof (cases "chunk \<noteq> [] \<and> hd chunk = CHR '']'' \<and> nrange > 0")
    case True
    with eq show ?thesis by (cases chunk) auto
  next
    case False
    from False eq obtain lo chunk1 where g1: "getEsc chunk = Inr (lo, chunk1)"
      by (auto split: sum.splits)
    have l1: "length chunk1 < length chunk" by (rule getEsc_shorter [OF g1])
    show ?thesis
    proof (cases "hd chunk1 = CHR ''-''")
      case True
      from False True g1 eq obtain hi chunk2
        where g2: "getEsc (tl chunk1) = Inr (hi, chunk2)"
        by (auto split: sum.splits)
      from False True g1 g2 eq
      have "classLoop chunk2 r (match \<or> (lo \<le> r \<and> r \<le> hi)) (nrange + 1) = Inr (m, rest)"
        by (auto split: if_splits)
      with "1.IH"(1) False g1 True g2 have "length rest < length chunk2" by simp
      moreover have "length chunk2 < length (tl chunk1)" by (rule getEsc_shorter [OF g2])
      ultimately show ?thesis using l1 by simp
    next
      case hf: False
      from False hf g1 eq
      have "classLoop chunk1 r (match \<or> (lo \<le> r \<and> r \<le> lo)) (nrange + 1) = Inr (m, rest)"
        by (auto split: if_splits)
      with "1.IH"(2) False g1 hf have "length rest < length chunk1" by simp
      with l1 show ?thesis by simp
    qed
  qed
qed

text \<open>
  \<^verbatim>\<open>matchChunk\<close> checks whether a chunk (literals, character classes and \<^verbatim>\<open>?\<close>)
  matches a prefix of \<open>s\<close>.  The result is \<open>Inr (Some rest)\<close> for a match leaving
  \<open>rest\<close>, \<open>Inr None\<close> for no match and \<open>Inl ErrBadPattern\<close> for a malformed chunk.
  After the match has failed the loop goes on through the chunk, only to check that it is
  well formed.
\<close>

function matchChunk_loop :: "bool \<Rightarrow> string \<Rightarrow> string \<Rightarrow> error + string option" where
  "matchChunk_loop failed0 [] s = (if failed0 then Inr None else Inr (Some s))"
| "matchChunk_loop failed0 (c # chunk) s =
     (let failed = (failed0 \<or> s = []) in
      if c = CHR ''['' then
        (let r = (if \<not> failed then fst (DecodeRuneInString s) else 0);
             s1 = (if \<not> failed then drop (snd (DecodeRuneInString s)) s else s);
             negated = (chunk \<noteq> [] \<and> hd chunk = CHR ''^'');
             chunk1 = (if negated then tl chunk else chunk)
         in case classLoop chunk1 r False 0 of
              Inl e \<Rightarrow> Inl e
            | Inr (match, chunk2) \<Rightarrow>
                matchChunk_loop (failed \<or> match = negated) chunk2 s1)
      else if c = CHR ''?'' then
        (if \<not> failed
         then matchChunk_loop (hd s = CHR ''/'') chunk (drop (snd (DecodeRuneInString s)) s)
         else matchChunk_loop failed chunk s)
      else if c = CHR 0x5C then
        (case chunk of
           [] \<Rightarrow> Inl ErrBadPattern
         | c' # chunk' \<Rightarrow>
             if \<not> failed then matchChunk_loop (c' \<noteq> hd s) chunk' (tl s)
             else matchChunk_loop failed chunk' s)
      else
        (if \<not> failed then matchChunk_loop (c \<noteq> hd s) chunk (tl s)
         else matchChunk_loop failed chunk s))"
  by pat_completeness auto

termination matchChunk_loop
proof (relation "measure (\<lambda>(failed, chunk, s). length chunk)", goal_cases)
  case (2 failed0 c chunk s failed r s1 negated chunk1 x2 match chunk2)
  then have "length chunk2 < length chunk1" "length chunk1 \<le> length chunk"
    by (auto dest: classLoop_shorter)
  then show ?case by simp
qed auto

definition matchChunk :: "string \<Rightarrow> string \<Rightarrow> error + string option" where
  "matchChunk chunk s = matchChunk_loop False chunk s"

text \<open>
  \<^verbatim>\<open>scanChunk\<close> takes the next segment of the pattern: a non-star string, possibly
  preceded by stars.  \<open>scan\<close> is its loop over the bytes after the stars; it stops at the
  first \<^verbatim>\<open>*\<close> that is neither escaped nor inside brackets.
\<close>

fun scan :: "bool \<Rightarrow> string \<Rightarrow> string \<times> string" where
  "scan inrange [] = ([], [])"
| "scan inrange (c # cs) =
     (if c = CHR 0x5C then
        (case cs of
           [] \<Rightarrow> ([c], [])
         | d # ds \<Rightarrow> (let (a, b) = scan inrange ds in (c # d # a, b)))
      else if c = CHR ''['' then (let (a, b) = scan True cs in (c # a, b))
      else if c = CHR '']'' then (let (a, b) = scan False cs in (c # a, b))
      else if c = CHR ''*'' \<and> \<not> inrange then ([], c # cs)
      else (let (a, b) = scan inrange cs in (c # a, b)))"

definition scanChunk :: "string \<Rightarrow> bool \<times> string \<times> string" where
  "scanChunk pattern =
     (let star = (pattern \<noteq> [] \<and> hd pattern = CHR ''*'');
          (chunk, rest) = scan False (dropWhile (\<lambda>c. c = CHR ''*'') pattern)
      in (star, chunk, rest))"

lemma scan_append: "scan inrange p = (chunk, rest) \<Longrightarrow> chunk @ rest = p"
proof (induction inrange p arbitrary: chunk rest rule: scan.induct)
  case (1 inrange)
  then show ?case by simp
next
  case (2 inrange c cs)
  then show ?case
    by (auto simp: Let_def split: if_splits list.splits prod.splits)
qed

lemma scan_chunk_nonempty:
  "scan False p = (chunk, rest) \<Longrightarrow> p \<noteq> [] \<Longrightarrow> hd p \<noteq> CHR ''*'' \<Longrightarrow> chunk \<noteq> []"
  by (cases p) (auto simp: Let_def split: if_splits list.splits prod.splits)

lemma scanChunk_shorter:
  assumes "scanChunk pattern = (star, chunk, rest)" and "pattern \<noteq> []"
  shows "length rest < length pattern"
proof -
  let ?p = "dropWhile (\<lambda>c. c = CHR ''*'') pattern"
  from assms(1) have sc: "scan False ?p = (chunk, rest)"
    by (auto simp: scanChunk_def Let_def split: prod.splits)
  have le: "length ?p \<le> length pattern" by (rule length_dropWhile_le)
  show ?thesis
  proof (cases "?p = pattern")
    case True
    with assms(2) hd_dropWhile [of "\<lambda>c. c = CHR ''*''" pattern]
    have "hd ?p \<noteq> CHR ''*''" by simp
    with sc True assms(2) have "chunk \<noteq> []" by (auto dest: scan_chunk_nonempty)
    moreover from scan_append [OF sc] have "length chunk + length rest = length ?p"
      by (metis length_append)
    ultimately show ?thesis using le by (cases chunk) auto
  next
    case False
    then have "length ?p < length pattern"
      by (cases pattern) (auto split: if_splits intro: le_imp_less_Suc length_dropWhile_le)
    moreover from scan_append [OF sc] have "length rest \<le> length ?p"
      by (metis length_append le_add2)
    ultimately show ?thesis by simp
  qed
qed

text \<open>
  The three loops of \<^verbatim>\<open>path.Match\<close>.  \<open>checkRest\<close> is the last one: before
  answering "no match" it checks that the remainder of the pattern is well formed.
  \<open>starLoop\<close> looks for a match of the chunk after skipping \<open>i + 1\<close> bytes of the
  name, none of them a slash; \<open>lastc\<close> says that the chunk is the last one, which must
  exhaust the name.  \<open>nextName\<close> is one round of the outer loop up to the point where
  it either continues with the rest of the name or gives up.
\<close>

function checkRest :: "string \<Rightarrow> error + bool" where
  "checkRest pattern =
     (if pattern = [] then Inr False
      else
        (let (star, chunk, rest) = scanChunk pattern in
         case matchChunk chunk [] of
           Inl e \<Rightarrow> Inl e
         | Inr r \<Rightarrow> checkRest rest))"
  by pat_completeness auto

termination checkRest
  by (relation "measure length") (auto dest: scanChunk_shorter [OF sym])

declare checkRest.simps [simp del]

fun starLoop :: "string \<Rightarrow> bool \<Rightarrow> string \<Rightarrow> error + string option" where
  "starLoop chunk lastc [] = Inr None"
| "starLoop chunk lastc (c # cs) =
     (if c = CHR ''/'' then Inr None
      else
        (case matchChunk chunk cs of
           Inl e \<Rightarrow> Inl e
         | Inr (Some t) \<Rightarrow> if lastc \<and> t \<noteq> [] then starLoop chunk lastc cs else Inr (Some t)
         | Inr None \<Rightarrow> starLoop chunk lastc cs))"

definition nextName :: "bool \<Rightarrow> string \<Rightarrow> string \<Rightarrow> string \<Rightarrow> error + string option" where
  "nextName star chunk rest name =
     (case matchChunk chunk name of
        Inl e \<Rightarrow> Inl e
      | Inr (Some t) \<Rightarrow>
          if t = [] \<or> rest \<noteq> [] then Inr (Some t)
          else if star then starLoop chunk (rest = []) name else Inr None
      | Inr None \<Rightarrow> if star then starLoop chunk (rest = []) name else Inr None)"

function path_Match :: "string \<Rightarrow> string \<Rightarrow> error + bool" where
  "path_Match pattern name =
     (if pattern = [] then Inr (name = [])
      else
        (let (star, chunk, rest) = scanChunk pattern in
         if star \<and> chunk = [] then Inr (CHR ''/'' \<notin> set name)
         else
           (case nextName star chunk rest name of
              Inl e \<Rightarrow> Inl e
            | Inr (Some t) \<Rightarrow> path_Match rest t
            | Inr None \<Rightarrow> checkRest rest)))"
  by pat_completeness auto

termination path_Match
  by (relation "measure (\<lambda>(pattern, name). length pattern)")
     (auto dest: scanChunk_shorter [OF sym])

declare path_Match.simps [simp del]

subsection \<open>\<^verbatim>\<open>path.Clean\<close> and \<^verbatim>\<open>path.Join\<close>\<close>

text \<open>
  \<^verbatim>\<open>path.Clean\<close> reads the path from left to right and writes the cleaned path
  into a buffer \<open>out\<close>; \<open>dotdot\<close> is the index in the buffer where a \<^verbatim>\<open>..\<close>
  element must stop backtracking.  \<open>backtrack\<close> is the inner loop that removes the last
  element written: it steps the write index \<open>w\<close> down to the previous slash.
\<close>

function backtrack :: "string \<Rightarrow> nat \<Rightarrow> nat \<Rightarrow> nat" where
  "backtrack out dotdot w =
     (if w > dotdot \<and> out ! w \<noteq> CHR ''/'' then backtrack out dotdot (w - 1) else w)"
  by pat_completeness auto

termination backtrack
  by (relation "measure (\<lambda>(out, dotdot, w). w)") auto

declare backtrack.simps [simp del]

function clean_loop :: "bool \<Rightarrow> string \<Rightarrow> string \<Rightarrow> nat \<Rightarrow> string" where
  "clean_loop rooted [] out dotdot = out"
| "clean_loop rooted (c # cs) out dotdot =
     (if c = CHR ''/'' then clean_loop rooted cs out dotdot
      else if c = CHR ''.'' \<and> (cs = [] \<or> hd cs = CHR ''/'') then
        clean_loop rooted cs out dotdot
      else if c = CHR ''.'' \<and> hd cs = CHR ''.'' \<and> (tl cs = [] \<or> hd (tl cs) = CHR ''/'') then
        (if length out > dotdot then
           clean_loop rooted (tl cs) (take (backtrack out dotdot (length out - 1)) out) dotdot
         else if \<not> rooted then
           (let out1 = (if length out > 0 then out @ ''/'' else out) @ ''..''
            in clean_loop rooted (tl cs) out1 (length out1))
         else clean_loop rooted (tl cs) out dotdot)
      else
        (let out1 = (if rooted \<and> length out \<noteq> 1 \<or> \<not> rooted \<and> length out \<noteq> 0
                     then out @ ''/'' else out)
         in clean_loop rooted (dropWhile (\<lambda>x. x \<noteq> CHR ''/'') (c # cs))
              (out1 @ takeWhile (\<lambda>x. x \<noteq> CHR ''/'') (c # cs)) dotdot))"
  by pat_completeness auto

termination clean_loop
proof (relation "measure (\<lambda>(rooted, p, out, dotdot). length p)", goal_cases)
  case (7 rooted c cs out dotdot x)
  have "length (dropWhile (\<lambda>x. x \<noteq> CHR ''/'') cs) \<le> length cs"
    by (rule length_dropWhile_le)
  with 7 show ?case by simp
qed (auto simp: less_Suc_eq_le)

definition path_Clean :: "string \<Rightarrow> string" where
  "path_Clean path =
     (if path = [] then ''.''
      else
        (let rooted = (hd path = CHR ''/'');
             out = (if rooted then clean_loop rooted (tl path) ''/'' 1
                    else clean_loop rooted path [] 0)
         in if out = [] then ''.'' else out))"

text \<open>
  \<^verbatim>\<open>path.Join\<close> ignores leading empty elements, separates the others with slashes
  and cleans the result; with no element, or only empty ones, it returns the empty string.
\<close>

fun join_loop :: "string list \<Rightarrow> string \<Rightarrow> string" where
  "join_loop [] buf = buf"
| "join_loop (e # es) buf =
     (if buf \<noteq> [] \<or> e \<noteq> [] then join_loop es ((if buf \<noteq> [] then buf @ ''/'' else buf) @ e)
      else join_loop es buf)"

definition path_Join :: "string list \<Rightarrow> string" where
  "path_Join elem =
     (if (\<Sum>e\<leftarrow>elem. length e) = 0 then [] else path_Clean (join_loop elem []))"

section \<open>Roles and rules\<close>

text \<open>
  A \<^verbatim>\<open>Rule\<close> lists the allowed HTTP methods and the key patterns permitted in the
  response.  A \<^verbatim>\<open>Role\<close> is a Go map from path patterns to rules; it is modelled by
  the list of its entries, in the order in which \<^verbatim>\<open>range\<close> visits them.
\<close>

record Rule =
  Methods :: "string list"
  ResponseKeys :: "string list"

type_synonym Role = "(string \<times> Rule) list"

section \<open>The response filter\<close>

text \<open>
  A value decoded by \<^verbatim>\<open>json.Unmarshal\<close> into an \<^verbatim>\<open>interface{}\<close>: \<^verbatim>\<open>nil\<close>,
  a \<^verbatim>\<open>bool\<close>, a \<^verbatim>\<open>float64\<close>, a \<^verbatim>\<open>string\<close>, a \<^verbatim>\<open>[]interface{}\<close> or a
  \<^verbatim>\<open>map[string]interface{}\<close>.  The filter never looks into a number, so the type of
  numbers is a parameter.  An object is the list of its members in the order in which
  \<^verbatim>\<open>range\<close> visits them.  \<open>JNilSlice\<close> is the \<^verbatim>\<open>nil\<close> slice of type
  \<^verbatim>\<open>[]interface{}\<close>, which \<^verbatim>\<open>json.Unmarshal\<close> never produces but \<^verbatim>\<open>filterJSON\<close>
  returns, and which \<^verbatim>\<open>json.Marshal\<close> does not encode as it encodes the empty slice
  \<open>JArray []\<close>.
\<close>

datatype 'n json =
    JNull
  | JBool bool
  | JNumber 'n
  | JString string
  | JArray "'n json list"
  | JObject "(string \<times> 'n json) list"
  | JNilSlice

text \<open>
  The slice that \<^verbatim>\<open>var vf []interface{}\<close> declares and the loop appends to: it is
  \<^verbatim>\<open>nil\<close> until the first \<^verbatim>\<open>append\<close>.
\<close>

definition appended :: "'n json list \<Rightarrow> 'n json" where
  "appended vf = (if vf = [] then JNilSlice else JArray vf)"

text \<open>\<^verbatim>\<open>checkFilter\<close>: the two nested loops over the rules and their key patterns.\<close>

fun check_patterns :: "string list \<Rightarrow> string \<Rightarrow> error + bool" where
  "check_patterns [] keyPath = Inr False"
| "check_patterns (keyPattern # ps) keyPath =
     (case path_Match keyPattern keyPath of
        Inl e \<Rightarrow> Inl e
      | Inr matched \<Rightarrow> if matched then Inr True else check_patterns ps keyPath)"

fun check_rules :: "Rule list \<Rightarrow> string \<Rightarrow> error + bool" where
  "check_rules [] keyPath = Inr False"
| "check_rules (rule # rs) keyPath =
     (case check_patterns (ResponseKeys rule) keyPath of
        Inl e \<Rightarrow> Inl e
      | Inr matched \<Rightarrow> if matched then Inr True else check_rules rs keyPath)"

definition checkFilter :: "Rule list \<Rightarrow> string list \<Rightarrow> error + bool" where
  "checkFilter rules keys = check_rules rules (path_Join keys)"

text \<open>
  \<^verbatim>\<open>filterJSON\<close> returns the filtered value and whether it matched.  \<open>filterArray\<close>
  and \<open>filterObject\<close> are the loops over the elements of a non-empty array and over the
  members of a non-empty object; they return the elements and members kept.  The empty
  array, the empty object and every other value are tested by \<open>checkFilter\<close>; so is
  the \<^verbatim>\<open>nil\<close> slice, which the type switch sends to the case of the arrays, where
  its length is 0.
\<close>

fun filterJSON :: "'n json \<Rightarrow> Rule list \<Rightarrow> string list \<Rightarrow> error + ('n json \<times> bool)"
  and filterArray :: "'n json list \<Rightarrow> Rule list \<Rightarrow> string list \<Rightarrow> error + 'n json list"
  and filterObject ::
    "(string \<times> 'n json) list \<Rightarrow> Rule list \<Rightarrow> string list \<Rightarrow> error + (string \<times> 'n json) list"
where
  "filterJSON (JArray vt) rules keys =
     (if vt = [] then
        (case checkFilter rules keys of
           Inl e \<Rightarrow> Inl e
         | Inr matched \<Rightarrow> Inr (JArray vt, matched))
      else
        (case filterArray vt rules keys of
           Inl e \<Rightarrow> Inl e
         | Inr vf \<Rightarrow> Inr (appended vf, length vf > 0)))"
| "filterJSON (JObject vt) rules keys =
     (if vt = [] then
        (case checkFilter rules keys of
           Inl e \<Rightarrow> Inl e
         | Inr matched \<Rightarrow> Inr (JObject vt, matched))
      else
        (case filterObject vt rules keys of
           Inl e \<Rightarrow> Inl e
         | Inr vf \<Rightarrow> Inr (JObject vf, length vf > 0)))"
| "filterJSON v rules keys =
     (case checkFilter rules keys of
        Inl e \<Rightarrow> Inl e
      | Inr matched \<Rightarrow> Inr (v, matched))"
| "filterArray [] rules keys = Inr []"
| "filterArray (ve # vt) rules keys =
     (case filterJSON ve rules keys of
        Inl e \<Rightarrow> Inl e
      | Inr (ve', matched) \<Rightarrow>
          (case filterArray vt rules keys of
             Inl e \<Rightarrow> Inl e
           | Inr vf \<Rightarrow> Inr (if matched then ve' # vf else vf)))"
| "filterObject [] rules keys = Inr []"
| "filterObject ((k, ve) # vt) rules keys =
     (case filterJSON ve rules (keys @ [k]) of
        Inl e \<Rightarrow> Inl e
      | Inr (ve', matched) \<Rightarrow>
          (case filterObject vt rules keys of
             Inl e \<Rightarrow> Inl e
           | Inr vf \<Rightarrow> Inr (if matched then (k, ve') # vf else vf)))"

text \<open>
  \<^verbatim>\<open>filterBytes\<close> between \<^verbatim>\<open>json.Unmarshal\<close> and \<^verbatim>\<open>json.Marshal\<close>: it
  filters the parsed value under the empty key list and drops the flag.
\<close>

definition Filter :: "'n json \<Rightarrow> Rule list \<Rightarrow> error + 'n json" where
  "Filter v rules =
     (case filterJSON v rules [] of
        Inl e \<Rightarrow> Inl e
      | Inr (filtered, matched) \<Rightarrow> Inr filtered)"

text \<open>
  \<^verbatim>\<open>json.Unmarshal\<close> and \<^verbatim>\<open>json.Marshal\<close> are parameters of \<^verbatim>\<open>filterBytes\<close>.
\<close>

definition filterBytes ::
  "(string \<Rightarrow> error + 'n json) \<Rightarrow> ('n json \<Rightarrow> error + string) \<Rightarrow> string \<Rightarrow> Rule list
     \<Rightarrow> error + string" where
  "filterBytes Unmarshal Marshal input rules =
     (case Unmarshal input of
        Inl e \<Rightarrow> Inl e
      | Inr parsed \<Rightarrow>
          (case Filter parsed rules of
             Inl e \<Rightarrow> Inl e
           | Inr filtered \<Rightarrow> Marshal filtered))"

section \<open>The token codec\<close>

text \<open>
  A \<^verbatim>\<open>time.Time\<close> is modelled by what the codec reads of it: its Unix time in
  seconds (an \<^verbatim>\<open>int64\<close>) and its nanoseconds within the second.  The zero time is
  January 1 of year 1, 00:00:00 UTC.
\<close>

record Time =
  Unix :: int
  Nanosecond :: nat

definition IsZero :: "Time \<Rightarrow> bool" where
  "IsZero t \<longleftrightarrow> Unix t = - 62135596800 \<and> Nanosecond t = 0"

definition time_Unix :: "int \<Rightarrow> nat \<Rightarrow> Time" where
  "time_Unix sec ns = \<lparr>Unix = sec, Nanosecond = ns\<rparr>"

record Key =
  CreatedAt :: Time
  Roles :: "string list"
  APIKey :: string

text \<open>
  The AEAD that \<^verbatim>\<open>cipher.NewGCM\<close> builds over the AES block is a parameter: its
  nonce size, \<open>aeadSeal nonce plaintext\<close> (the sealed bytes that \<^verbatim>\<open>Seal\<close> appends to
  its first argument) and \<open>aeadOpen nonce ciphertext\<close> (\<open>None\<close> when authentication
  fails).  \<open>gcm\<close> is the result of \<^verbatim>\<open>cipher.NewGCM(a.block)\<close>, \<open>None\<close> for its error.
\<close>

record AEAD =
  aeadNonceSize :: nat
  aeadSeal :: "string \<Rightarrow> string \<Rightarrow> string"
  aeadOpen :: "string \<Rightarrow> string \<Rightarrow> string option"

record Auth =
  gcm :: "AEAD option"

text \<open>
  \<^verbatim>\<open>binary.Write\<close> and \<^verbatim>\<open>binary.Read\<close> of a \<^verbatim>\<open>uint32\<close> in big-endian order.
\<close>

definition put_uint32 :: "32 word \<Rightarrow> string" where
  "put_uint32 w =
     [char_of (unat w div 16777216), char_of (unat w div 65536),
      char_of (unat w div 256), char_of (unat w)]"

definition get_uint32 :: "string \<Rightarrow> 32 word" where
  "get_uint32 b =
     word_of_nat (of_char (b ! 0) * 16777216 + of_char (b ! 1) * 65536
                    + of_char (b ! 2) * 256 + of_char (b ! 3))"

text \<open>The loop of \<^verbatim>\<open>Generate\<close> that writes every role and a NUL byte after it.\<close>

fun write_roles :: "string \<Rightarrow> string list \<Rightarrow> string" where
  "write_roles buf [] = buf"
| "write_roles buf (role # roles) = write_roles (buf @ role @ [CHR 0x00]) roles"

definition serialize :: "Key \<Rightarrow> string" where
  "serialize key =
     write_roles (put_uint32 (word_of_int (Unix (CreatedAt key)))) (Roles key) @ APIKey key"

text \<open>
  \<open>rnd i\<close> is what the \<open>i\<close>-th call of \<^verbatim>\<open>rand.Read\<close> delivers: \<open>None\<close> for an
  error, otherwise the random bytes, which \<open>read_into\<close> copies into the nonce buffer
  that \<^verbatim>\<open>make\<close> has filled with zeros.
\<close>

definition read_into :: "string \<Rightarrow> string \<Rightarrow> string" where
  "read_into buf bytes = take (length buf) bytes @ drop (length bytes) buf"

function generate_loop ::
  "AEAD \<Rightarrow> (nat \<Rightarrow> string option) \<Rightarrow> string \<Rightarrow> nat \<Rightarrow> error + string" where
  "generate_loop aead rnd plaintext i =
     (if i < 100 then
        (case rnd i of
           None \<Rightarrow> Inl ErrRandRead
         | Some bytes \<Rightarrow>
             (let nonce = read_into (replicate (aeadNonceSize aead) (CHR 0x00)) bytes;
                  ciphertext = nonce @ aeadSeal aead nonce plaintext
              in if CHR '':'' \<notin> set ciphertext then Inr ciphertext
                 else generate_loop aead rnd plaintext (i + 1)))
      else Inl ErrGenerate)"
  by pat_completeness auto

termination generate_loop
  by (relation "measure (\<lambda>(aead, rnd, plaintext, i). 100 - i)") auto

declare generate_loop.simps [simp del]

text \<open>
  \<^verbatim>\<open>Generate\<close> first replaces a zero \<^verbatim>\<open>CreatedAt\<close> by the current time, in the
  caller's key: \<open>stamp now key\<close> is the key after the call.
\<close>

definition stamp :: "Time \<Rightarrow> Key \<Rightarrow> Key" where
  "stamp now key = (if IsZero (CreatedAt key) then key\<lparr>CreatedAt := now\<rparr> else key)"

definition Generate :: "Auth \<Rightarrow> (nat \<Rightarrow> string option) \<Rightarrow> Time \<Rightarrow> Key \<Rightarrow> error + string" where
  "Generate a rnd now key =
     (let plaintext = serialize (stamp now key) in
      case gcm a of
        None \<Rightarrow> Inl ErrNewGCM
      | Some aead \<Rightarrow> generate_loop aead rnd plaintext 0)"

text \<open>\<^verbatim>\<open>bytes.Split\<close> with a separator of one byte.\<close>

fun bytes_Split :: "string \<Rightarrow> char \<Rightarrow> string list" where
  "bytes_Split [] sep = [[]]"
| "bytes_Split (c # cs) sep =
     (if c = sep then [] # bytes_Split cs sep
      else (case bytes_Split cs sep of
              [] \<Rightarrow> [[c]]
            | part # parts \<Rightarrow> (c # part) # parts))"

definition Open :: "Auth \<Rightarrow> string \<Rightarrow> error + Key" where
  "Open a ciphertext =
     (case gcm a of
        None \<Rightarrow> Inl ErrNewGCM
      | Some aead \<Rightarrow>
          (let ns = aeadNonceSize aead in
           if length ciphertext \<le> ns then Inl ErrKeyData
           else
             (case aeadOpen aead (take ns ciphertext) (drop ns ciphertext) of
                None \<Rightarrow> Inl ErrAEADOpen
              | Some data \<Rightarrow>
                  if length data < 4 then Inl ErrEOF
                  else
                    (let ut = get_uint32 (take 4 data);
                         parts = bytes_Split (drop 4 data) (CHR 0x00)
                     in Inr \<lparr>CreatedAt = time_Unix (uint ut) 0,
                              Roles = take (length parts - 1) parts,
                              APIKey = parts ! (length parts - 1)\<rparr>))))"

section \<open>The proxy\<close>

text \<open>
  Of a request the handler reads the user name of its basic authorization (\<open>None\<close> when
  \<^verbatim>\<open>r.BasicAuth()\<close> is not ok), its method and the path of its URL.  \<open>Transport\<close>
  stands for \<^verbatim>\<open>p.request\<close>: the round trip to the upstream API with the given API key,
  giving the body read and the status code, or an error.  \<open>ProxyRoles\<close> is the field
  \<^verbatim>\<open>Roles\<close> of \<^verbatim>\<open>Proxy\<close>.  \<^verbatim>\<open>json.Unmarshal\<close> and \<^verbatim>\<open>json.Marshal\<close> are the two
  fields of \<open>encoding_json\<close>.
\<close>

record Request =
  BasicAuth :: "string option"
  Method :: string
  URLPath :: string

record Proxy =
  KeyOpener :: "string \<Rightarrow> error + Key"
  ProxyRoles :: "string \<rightharpoonup> Role"
  Transport :: "Request \<Rightarrow> string \<Rightarrow> error + (string \<times> nat)"

record 'n encoding_json =
  Unmarshal :: "string \<Rightarrow> error + 'n json"
  Marshal :: "'n json \<Rightarrow> error + string"

text \<open>
  What the handler leaves behind: a response with its status code and body, or a panic
  with the value it panicked with and the status code already written, if any.  The body is
  either the JSON encoding of an \<^verbatim>\<open>errResponse\<close> with its code and message, as
  \<^verbatim>\<open>respond\<close> writes it, or raw bytes.
\<close>

datatype body = ErrorBody string string | Bytes string

datatype outcome = Responded nat body | Panicked error "nat option"

definition authenticate :: "Proxy \<Rightarrow> Request \<Rightarrow> string + Key" where
  "authenticate p r =
     (case BasicAuth r of
        None \<Rightarrow> Inl ''Unable to parse Authorization header''
      | Some user \<Rightarrow>
          (case KeyOpener p user of
             Inl err \<Rightarrow> Inl ''Invalid password provided''
           | Inr key \<Rightarrow> Inr key))"

text \<open>
  The loops of \<^verbatim>\<open>ServeHTTP\<close>: over the methods of a rule, over the patterns of a
  role, and over the roles of the key.  \<open>matches\<close> is the slice of rules appended so far.
\<close>

fun methods_allow :: "string list \<Rightarrow> string \<Rightarrow> bool" where
  "methods_allow [] m = False"
| "methods_allow (method # ms) m =
     (if method = ''*'' \<or> method = m then True else methods_allow ms m)"

fun match_role :: "Role \<Rightarrow> string \<Rightarrow> string \<Rightarrow> Rule list \<Rightarrow> error + Rule list" where
  "match_role [] path m matches = Inr matches"
| "match_role ((pattern, rule) # rr) path m matches =
     (case path_Match pattern path of
        Inl err \<Rightarrow> Inl err
      | Inr matched \<Rightarrow>
          if \<not> matched then match_role rr path m matches
          else match_role rr path m
                 (if methods_allow (Methods rule) m then matches @ [rule] else matches))"

datatype authorization = RoleMissing string | PatternPanic error | Matches "Rule list"

fun match_roles ::
  "(string \<rightharpoonup> Role) \<Rightarrow> string list \<Rightarrow> string \<Rightarrow> string \<Rightarrow> Rule list \<Rightarrow> authorization" where
  "match_roles reg [] path m matches = Matches matches"
| "match_roles reg (role # roles) path m matches =
     (case reg role of
        None \<Rightarrow> RoleMissing role
      | Some rr \<Rightarrow>
          (case match_role rr path m matches of
             Inl err \<Rightarrow> PatternPanic err
           | Inr matches' \<Rightarrow> match_roles reg roles path m matches'))"

definition unauthorized :: "string \<Rightarrow> outcome" where
  "unauthorized message = Responded 401 (ErrorBody ''unauthorized'' message)"

definition ServeHTTP :: "'n encoding_json \<Rightarrow> Proxy \<Rightarrow> Request \<Rightarrow> outcome" where
  "ServeHTTP js p r =
     (case authenticate p r of
        Inl message \<Rightarrow> unauthorized message
      | Inr key \<Rightarrow>
          (case match_roles (ProxyRoles p) (Roles key) (URLPath r) (Method r) [] of
             RoleMissing role \<Rightarrow> unauthorized (''Role '' @ role @ '' does not exist'')
           | PatternPanic err \<Rightarrow> Panicked err None
           | Matches matches \<Rightarrow>
               if length matches = 0 then
                 unauthorized ''You do not have permission to access this resource''
               else
                 (case Transport p r (APIKey key) of
                    Inl err \<Rightarrow> Panicked err None
                  | Inr (body, status) \<Rightarrow>
                      if status < 300 then
                        (case filterBytes (Unmarshal js) (Marshal js) body matches of
                           Inl err \<Rightarrow> Panicked err (Some status)
                         | Inr filtered \<Rightarrow> Responded status (Bytes filtered))
                      else Responded status (Bytes body))))"

section \<open>Properties of the pattern matcher\<close>

text \<open>
  Whether \<^verbatim>\<open>path.Match\<close> returns \<^verbatim>\<open>ErrBadPattern\<close> depends on the pattern
  only, never on the name: every chunk is parsed to its end even after the match has
  failed, and \<open>checkRest\<close> parses the chunks that the match did not reach.
\<close>

lemma classLoop_step:
  assumes "\<not> (chunk \<noteq> [] \<and> hd chunk = CHR '']'' \<and> nrange > 0)"
  shows "classLoop chunk r match nrange =
     (case getEsc chunk of
        Inl e \<Rightarrow> Inl e
      | Inr (lo, chunk1) \<Rightarrow>
          if hd chunk1 = CHR ''-'' then
            (case getEsc (tl chunk1) of
               Inl e \<Rightarrow> Inl e
             | Inr (hi, chunk2) \<Rightarrow>
                 classLoop chunk2 r (match \<or> (lo \<le> r \<and> r \<le> hi)) (nrange + 1))
          else classLoop chunk1 r (match \<or> (lo \<le> r \<and> r \<le> lo)) (nrange + 1))"
  by (subst classLoop.simps) (rule if_not_P [OF assms])

lemma classLoop_indep:
  "map_sum id snd (classLoop chunk r m n) = map_sum id snd (classLoop chunk r' m' n)"
proof (induction chunk r m n arbitrary: m' rule: classLoop.induct)
  case (1 chunk r match nrange)
  show ?case
  proof (cases "chunk \<noteq> [] \<and> hd chunk = CHR '']'' \<and> nrange > 0")
    case True
    then show ?thesis by (simp add: classLoop.simps [of chunk])
  next
    case False
    note st = classLoop_step [OF False]
    show ?thesis
    proof (cases "getEsc chunk")
      case (Inl e)
      then show ?thesis by (simp add: st)
    next
      case (Inr a)
      obtain lo chunk1 where a: "a = (lo, chunk1)" by (cases a)
      show ?thesis
      proof (cases "hd chunk1 = CHR ''-''")
        case True
        show ?thesis
        proof (cases "getEsc (tl chunk1)")
          case (Inl e)
          with Inr a True show ?thesis by (simp add: st)
        next
          case Inr2: (Inr b)
          obtain hi chunk2 where b: "b = (hi, chunk2)" by (cases b)
          have l: "classLoop chunk r match nrange
                 = classLoop chunk2 r (match \<or> (lo \<le> r \<and> r \<le> hi)) (nrange + 1)"
            by (simp add: st [of r match] Inr a True Inr2 b)
          have r: "classLoop chunk r' m' nrange
                 = classLoop chunk2 r' (m' \<or> (lo \<le> r' \<and> r' \<le> hi)) (nrange + 1)"
            by (simp add: st [of r' m'] Inr a True Inr2 b)
          show ?thesis unfolding l r
            by (rule "1.IH"(1) [OF False Inr [unfolded a] refl True Inr2 [unfolded b] refl])
        qed
      next
        case hf: False
        have l: "classLoop chunk r match nrange
               = classLoop chunk1 r (match \<or> (lo \<le> r \<and> r \<le> lo)) (nrange + 1)"
          by (simp add: st [of r match] Inr a hf)
        have r: "classLoop chunk r' m' nrange
               = classLoop chunk1 r' (m' \<or> (lo \<le> r' \<and> r' \<le> lo)) (nrange + 1)"
          by (simp add: st [of r' m'] Inr a hf)
        show ?thesis unfolding l r
          by (rule "1.IH"(2) [OF False Inr [unfolded a] refl hf])
      qed
    qed
  qed
qed

lemma classLoop_Inl:
  assumes "classLoop chunk r m n = Inl e"
  shows "classLoop chunk r' m' n = Inl e"
proof (cases "classLoop chunk r' m' n")
  case (Inl e')
  with classLoop_indep [of chunk r m n r' m'] assms show ?thesis by simp
next
  case (Inr b)
  with classLoop_indep [of chunk r m n r' m'] assms show ?thesis by simp
qed

lemma classLoop_Inr:
  assumes "classLoop chunk r m n = Inr (x, rest)"
  shows "\<exists>x'. classLoop chunk r' m' n = Inr (x', rest)"
proof (cases "classLoop chunk r' m' n")
  case (Inl e')
  with classLoop_indep [of chunk r m n r' m'] assms show ?thesis by simp
next
  case (Inr b)
  with classLoop_indep [of chunk r m n r' m'] assms show ?thesis by (cases b) simp
qed

lemma matchChunk_loop_indep:
  "isl (matchChunk_loop f chunk s) = isl (matchChunk_loop f' chunk s')"
proof (induction chunk arbitrary: f s f' s' rule: length_induct)
  case (1 chunk)
  show ?case
  proof (cases chunk)
    case Nil
    then show ?thesis by simp
  next
    case (Cons c cs)
    have IH: "\<And>ys f s f' s'. length ys \<le> length cs \<Longrightarrow>
      isl (matchChunk_loop f ys s) = isl (matchChunk_loop f' ys s')"
      using 1 Cons by simp
    consider (cls) "c = CHR ''[''" | (q) "c \<noteq> CHR ''[''" "c = CHR ''?''"
      | (esc) "c \<noteq> CHR ''[''" "c \<noteq> CHR ''?''" "c = CHR 0x5C"
      | (lit) "c \<noteq> CHR ''[''" "c \<noteq> CHR ''?''" "c \<noteq> CHR 0x5C" by blast
    then show ?thesis
    proof cases
      case cls
      define chunk1 where "chunk1 = (if cs \<noteq> [] \<and> hd cs = CHR ''^'' then tl cs else cs)"
      have len1: "length chunk1 \<le> length cs" by (simp add: chunk1_def)
      have key: "isl (matchChunk_loop f (c # cs) s) =
           (case classLoop chunk1 0 False 0 of Inl e \<Rightarrow> True
            | Inr (m, chunk2) \<Rightarrow> isl (matchChunk_loop False chunk2 []))" for f s
      proof -
        define r where "r = (if \<not> (f \<or> s = []) then fst (DecodeRuneInString s) else 0)"
        have unf: "matchChunk_loop f (c # cs) s =
          (case classLoop chunk1 r False 0 of
              Inl e \<Rightarrow> Inl e
            | Inr (match, chunk2) \<Rightarrow>
                matchChunk_loop ((f \<or> s = []) \<or> match = (cs \<noteq> [] \<and> hd cs = CHR ''^'')) chunk2
                  (if \<not> (f \<or> s = []) then drop (snd (DecodeRuneInString s)) s else s))"
          using cls by (simp add: Let_def chunk1_def r_def del: DecodeRuneInString.simps)
        show ?thesis
        proof (cases "classLoop chunk1 0 False 0")
          case (Inl e)
          from classLoop_Inl [OF this, of r False] show ?thesis by (simp add: unf Inl del: matchChunk_loop.simps)
        next
          case (Inr p)
          obtain m0 chunk2 where p: "p = (m0, chunk2)" by (cases p)
          from classLoop_Inr [OF Inr [unfolded p]] obtain m1
            where m1: "classLoop chunk1 r False 0 = Inr (m1, chunk2)" by blast
          have "length chunk2 \<le> length cs"
            using classLoop_shorter [OF m1] len1 by simp
          from IH [OF this] show ?thesis by (simp add: unf Inr p m1 del: matchChunk_loop.simps)
        qed
      qed
      show ?thesis by (simp only: Cons key)
    next
      case q
      have ex: "\<exists>a b. matchChunk_loop f (c # cs) s = matchChunk_loop a cs b" for f s
        using q by (auto simp: Let_def simp del: DecodeRuneInString.simps)
      from ex [of f s] obtain a b
        where 1: "matchChunk_loop f (c # cs) s = matchChunk_loop a cs b" by blast
      from ex [of f' s'] obtain a' b'
        where 2: "matchChunk_loop f' (c # cs) s' = matchChunk_loop a' cs b'" by blast
      from IH [of cs a b a' b'] show ?thesis unfolding Cons 1 2 by simp
    next
      case esc
      show ?thesis
      proof (cases cs)
        case Nil
        with esc show ?thesis unfolding Cons by (simp add: Let_def)
      next
        case cs: (Cons d ds)
        have ex: "\<exists>a b. matchChunk_loop f (c # d # ds) s = matchChunk_loop a ds b" for f s
          using esc by (auto simp: Let_def simp del: DecodeRuneInString.simps)
        from ex [of f s] obtain a b
          where 1: "matchChunk_loop f (c # d # ds) s = matchChunk_loop a ds b" by blast
        from ex [of f' s'] obtain a' b'
          where 2: "matchChunk_loop f' (c # d # ds) s' = matchChunk_loop a' ds b'" by blast
        from IH [of ds a b a' b'] show ?thesis unfolding Cons cs 1 2 by (simp add: cs)
      qed
    next
      case lit
      have ex: "\<exists>a b. matchChunk_loop f (c # cs) s = matchChunk_loop a cs b" for f s
        using lit by (auto simp: Let_def simp del: DecodeRuneInString.simps)
      from ex [of f s] obtain a b
        where 1: "matchChunk_loop f (c # cs) s = matchChunk_loop a cs b" by blast
      from ex [of f' s'] obtain a' b'
        where 2: "matchChunk_loop f' (c # cs) s' = matchChunk_loop a' cs b'" by blast
      from IH [of cs a b a' b'] show ?thesis unfolding Cons 1 2 by simp
    qed
  qed
qed

lemma matchChunk_isl: "isl (matchChunk chunk s) = isl (matchChunk chunk [])"
  unfolding matchChunk_def by (rule matchChunk_loop_indep)

lemma starLoop_isr:
  "\<not> isl (matchChunk chunk []) \<Longrightarrow> \<not> isl (starLoop chunk lastc name)"
proof (induction name)
  case Nil
  then show ?case by simp
next
  case (Cons c cs)
  from Cons.prems have "\<not> isl (matchChunk chunk cs)" by (simp add: matchChunk_isl [of chunk cs])
  with Cons show ?case by (auto split: sum.splits option.splits)
qed

lemma nextName_isl: "isl (nextName star chunk rest name) = isl (matchChunk chunk [])"
proof (cases "matchChunk chunk name")
  case (Inl e)
  with matchChunk_isl [of chunk name] show ?thesis by (simp add: nextName_def)
next
  case (Inr r)
  with matchChunk_isl [of chunk name] have ok: "\<not> isl (matchChunk chunk [])" by simp
  from starLoop_isr [OF ok] Inr ok show ?thesis
    by (auto simp: nextName_def split: option.splits)
qed

lemma scan_empty_chunk:
  "scan False q = ([], rest) \<Longrightarrow> q = [] \<or> hd q \<noteq> CHR ''*'' \<Longrightarrow> rest = []"
  by (cases q) (auto simp: Let_def split: if_splits list.splits prod.splits)

lemma scanChunk_empty_chunk:
  assumes "scanChunk p = (star, [], rest)" shows "rest = []"
proof -
  let ?q = "dropWhile (\<lambda>c. c = CHR ''*'') p"
  from assms have "scan False ?q = ([], rest)"
    by (auto simp: scanChunk_def Let_def split: prod.splits)
  moreover have "?q = [] \<or> hd ?q \<noteq> CHR ''*''"
    using hd_dropWhile [of "\<lambda>c. c = CHR ''*''" p] by blast
  ultimately show ?thesis by (rule scan_empty_chunk)
qed

lemma checkRest_Nil: "checkRest [] = Inr False"
  by (simp add: checkRest.simps)

lemma checkRest_step:
  "p \<noteq> [] \<Longrightarrow> scanChunk p = (star, chunk, rest) \<Longrightarrow>
   checkRest p = (case matchChunk chunk [] of Inl e \<Rightarrow> Inl e | Inr r \<Rightarrow> checkRest rest)"
  by (subst checkRest.simps) simp

lemma path_Match_step:
  "p \<noteq> [] \<Longrightarrow> scanChunk p = (star, chunk, rest) \<Longrightarrow>
   path_Match p name =
     (if star \<and> chunk = [] then Inr (CHR ''/'' \<notin> set name)
      else (case nextName star chunk rest name of
              Inl e \<Rightarrow> Inl e
            | Inr (Some t) \<Rightarrow> path_Match rest t
            | Inr None \<Rightarrow> checkRest rest))"
  by (subst path_Match.simps) simp

lemma path_Match_isl: "isl (path_Match p name) = isl (checkRest p)"
proof (induction p name rule: path_Match.induct)
  case (1 pattern name)
  show ?case
  proof (cases "pattern = []")
    case True
    then show ?thesis by (simp add: path_Match.simps checkRest.simps)
  next
    case False
    obtain star chunk rest where sc: "scanChunk pattern = (star, chunk, rest)"
      by (cases "scanChunk pattern") auto
    note pm = path_Match_step [OF False sc] and cr = checkRest_step [OF False sc]
    show ?thesis
    proof (cases "star \<and> chunk = []")
      case True
      with sc have "rest = []" by (auto dest: scanChunk_empty_chunk)
      with True show ?thesis by (simp add: pm cr matchChunk_def checkRest_Nil)
    next
      case nt: False
      show ?thesis
      proof (cases "nextName star chunk rest name")
        case (Inl e)
        with nextName_isl [of star chunk rest name] have "isl (matchChunk chunk [])" by simp
        with Inl nt show ?thesis by (auto simp: pm cr split: sum.splits)
      next
        case (Inr r)
        with nextName_isl [of star chunk rest name] have ok: "\<not> isl (matchChunk chunk [])" by simp
        show ?thesis
        proof (cases r)
          case None
          with Inr nt ok show ?thesis by (auto simp: pm cr split: sum.splits)
        next
          case (Some t)
          from "1.IH" [OF False sc [symmetric] refl refl nt Inr [unfolded Some] refl]
          have "isl (path_Match rest t) = isl (checkRest rest)" .
          with Inr Some nt ok show ?thesis by (auto simp: pm cr split: sum.splits)
        qed
      qed
    qed
  qed
qed

lemma path_Match_total:
  "path_Match p name = Inr b \<Longrightarrow> \<exists>b'. path_Match p name' = Inr b'"
  using path_Match_isl [of p name] path_Match_isl [of p name']
  by (cases "path_Match p name'") auto

lemma check_patterns_total:
  "check_patterns ps kp = Inr False \<Longrightarrow> \<exists>b. check_patterns ps kp' = Inr b"
proof (induction ps)
  case Nil
  show ?case by auto
next
  case (Cons p ps)
  from Cons.prems have 1: "path_Match p kp = Inr False" and 2: "check_patterns ps kp = Inr False"
    by (auto split: sum.splits if_splits)
  from path_Match_total [OF 1] obtain b' where "path_Match p kp' = Inr b'" by blast
  with Cons.IH [OF 2] show ?case by auto
qed

lemma check_rules_total:
  "check_rules rules kp = Inr False \<Longrightarrow> \<exists>b. check_rules rules kp' = Inr b"
proof (induction rules)
  case Nil
  show ?case by auto
next
  case (Cons r rs)
  from Cons.prems have 1: "check_patterns (ResponseKeys r) kp = Inr False"
    and 2: "check_rules rs kp = Inr False"
    by (auto split: sum.splits if_splits)
  from check_patterns_total [OF 1] obtain b' where "check_patterns (ResponseKeys r) kp' = Inr b'" by blast
  with Cons.IH [OF 2] show ?case by auto
qed

lemma checkFilter_total:
  "checkFilter rules keys = Inr False \<Longrightarrow> \<exists>b. checkFilter rules keys' = Inr b"
  unfolding checkFilter_def by (rule check_rules_total)

section \<open>Properties of \<^verbatim>\<open>path.Join\<close>\<close>

text \<open>
  \<open>at_slash z\<close>: the rest \<open>z\<close> of a path is empty or starts a new element.  What
  \<^verbatim>\<open>path.Clean\<close> does with the bytes before such a rest does not depend on the rest.
\<close>

definition at_slash :: "string \<Rightarrow> bool" where
  "at_slash z \<longleftrightarrow> z = [] \<or> hd z = CHR ''/''"

lemma takeWhile_at_slash:
  "at_slash z \<Longrightarrow>
   takeWhile (\<lambda>x. x \<noteq> CHR ''/'') (x @ z) = takeWhile (\<lambda>x. x \<noteq> CHR ''/'') x"
  by (induction x) (auto simp: at_slash_def, (cases z; simp)+)

lemma dropWhile_at_slash:
  "at_slash z \<Longrightarrow>
   dropWhile (\<lambda>x. x \<noteq> CHR ''/'') (x @ z) = dropWhile (\<lambda>x. x \<noteq> CHR ''/'') x @ z"
  by (induction x) (auto simp: at_slash_def, (cases z; simp)+)

lemma clean_loop_append:
  assumes u: "at_slash u"
  shows "clean_loop rooted ((c # cs) @ u) out dotdot =
     (if c = CHR ''/'' then clean_loop rooted (cs @ u) out dotdot
      else if c = CHR ''.'' \<and> (cs = [] \<or> hd cs = CHR ''/'') then
        clean_loop rooted (cs @ u) out dotdot
      else if c = CHR ''.'' \<and> hd cs = CHR ''.'' \<and> (tl cs = [] \<or> hd (tl cs) = CHR ''/'') then
        (if length out > dotdot then
           clean_loop rooted (tl cs @ u) (take (backtrack out dotdot (length out - 1)) out) dotdot
         else if \<not> rooted then
           (let out1 = (if length out > 0 then out @ ''/'' else out) @ ''..''
            in clean_loop rooted (tl cs @ u) out1 (length out1))
         else clean_loop rooted (tl cs @ u) out dotdot)
      else
        (let out1 = (if rooted \<and> length out \<noteq> 1 \<or> \<not> rooted \<and> length out \<noteq> 0
                     then out @ ''/'' else out)
         in clean_loop rooted (dropWhile (\<lambda>x. x \<noteq> CHR ''/'') (c # cs) @ u)
              (out1 @ takeWhile (\<lambda>x. x \<noteq> CHR ''/'') (c # cs)) dotdot))"
proof (cases "cs = []")
  case True
  have dz: "dropWhile (\<lambda>x. x \<noteq> CHR ''/'') u = u" "takeWhile (\<lambda>x. x \<noteq> CHR ''/'') u = []"
      "(u = [] \<or> hd u = CHR ''/'') = True"
    using u by (cases u; simp add: at_slash_def)+
  show ?thesis
    by (simp add: True Let_def dz)
next
  case False
  have tw: "takeWhile (\<lambda>x. x \<noteq> CHR ''/'') (c # cs @ u) = takeWhile (\<lambda>x. x \<noteq> CHR ''/'') (c # cs)"
    using takeWhile_at_slash [OF u, of "c # cs"] by simp
  have dw: "dropWhile (\<lambda>x. x \<noteq> CHR ''/'') (c # cs @ u)
              = dropWhile (\<lambda>x. x \<noteq> CHR ''/'') (c # cs) @ u"
    using dropWhile_at_slash [OF u, of "c # cs"] by simp
  have c2: "(c = CHR ''.'' \<and> (cs @ u = [] \<or> hd (cs @ u) = CHR ''/''))
              = (c = CHR ''.'' \<and> (cs = [] \<or> hd cs = CHR ''/''))"
    using False by simp
  have c3: "(c = CHR ''.'' \<and> hd (cs @ u) = CHR ''.''
               \<and> (tl (cs @ u) = [] \<or> hd (tl (cs @ u)) = CHR ''/''))
              = (c = CHR ''.'' \<and> hd cs = CHR ''.'' \<and> (tl cs = [] \<or> hd (tl cs) = CHR ''/''))"
    using False u by (cases "tl cs") (auto simp: at_slash_def)
  have tl1: "tl (cs @ u) = tl cs @ u" using False by simp
  show ?thesis
    apply (simp only: append_Cons clean_loop.simps(2) c2 c3 tw dw)
    apply (simp only: tl1)
    done
qed

lemma clean_loop_cong:
  assumes z: "at_slash z" and z': "at_slash z'"
    and eq: "\<And>out dd. clean_loop rooted z out dd = clean_loop rooted z' out dd"
  shows "clean_loop rooted (x @ z) out dd = clean_loop rooted (x @ z') out dd"
  using eq
proof (induction rooted x out dd rule: clean_loop.induct)
  case (1 rooted out dotdot)
  then show ?case by simp
next
  case (2 rooted c cs out dotdot)
  let ?B = "c = CHR ''.'' \<and> (cs = [] \<or> hd cs = CHR ''/'')"
  let ?C = "c = CHR ''.'' \<and> hd cs = CHR ''.'' \<and> (tl cs = [] \<or> hd (tl cs) = CHR ''/'')"
  consider (slash) "c = CHR ''/''" | (dot) "c \<noteq> CHR ''/''" ?B
    | (dotdot) "c \<noteq> CHR ''/''" "\<not> ?B" ?C | (elem) "c \<noteq> CHR ''/''" "\<not> ?B" "\<not> ?C"
    by blast
  then show ?case
  proof cases
    case slash
    with "2.IH"(1) "2.prems" show ?thesis
      unfolding clean_loop_append [OF z] clean_loop_append [OF z'] by simp
  next
    case dot
    with "2.IH"(2) "2.prems" show ?thesis
      unfolding clean_loop_append [OF z] clean_loop_append [OF z'] by simp
  next
    case dotdot
    have a: "(c = CHR ''/'') = False" "?B = False" "?C = True" using dotdot by simp_all
    show ?thesis
      unfolding clean_loop_append [OF z] clean_loop_append [OF z']
      apply (simp only: a if_True if_False)
      using "2.IH"(3,4,5) "2.prems" dotdot
      apply (auto simp: Let_def)
      done
  next
    case elem
    have a: "(c = CHR ''/'') = False" "?B = False" "?C = False" using elem by simp_all
    show ?thesis
      unfolding clean_loop_append [OF z] clean_loop_append [OF z']
      apply (simp only: a if_True if_False)
      using "2.IH"(6) "2.prems" elem
      apply (auto simp: Let_def)
      done
  qed
qed

lemma path_Clean_skip_slash:
  assumes b: "b \<noteq> []" and S: "at_slash S"
  shows "path_Clean (b @ CHR ''/'' # S) = path_Clean (b @ S)"
proof -
  have eq: "clean_loop r (CHR ''/'' # S) out dd = clean_loop r S out dd" for r out dd
    by simp
  have sl: "at_slash (CHR ''/'' # S)" by (simp add: at_slash_def)
  have 1: "clean_loop r (x @ CHR ''/'' # S) out dd = clean_loop r (x @ S) out dd" for r x out dd
    by (rule clean_loop_cong [OF sl S eq])
  from b obtain c cs where bc: "b = c # cs" by (cases b) auto
  show ?thesis
    using 1 [of _ cs] 1 [of _ "c # cs"]
    by (simp add: path_Clean_def bc Let_def del: clean_loop.simps)
qed

lemma join_loop_append: "join_loop (xs @ ys) buf = join_loop ys (join_loop xs buf)"
  by (induction xs arbitrary: buf) auto

lemma join_loop_nonempty: "buf \<noteq> [] \<Longrightarrow> join_loop es buf = buf @ concat (map (\<lambda>e. CHR ''/'' # e) es)"
  by (induction es arbitrary: buf) auto

lemma join_loop_Nil_iff: "join_loop es buf = [] \<longleftrightarrow> buf = [] \<and> (\<forall>e\<in>set es. e = [])"
  by (induction es arbitrary: buf) auto

lemma at_slash_concat: "at_slash (concat (map (\<lambda>e. CHR ''/'' # e) es))"
  by (cases es) (auto simp: at_slash_def)

lemma path_Join_skip_empty: "path_Join (ks @ [[]] @ ks') = path_Join (ks @ ks')"
proof -
  have len: "((\<Sum>e\<leftarrow>ks @ [[]] @ ks'. length e) = 0) = ((\<Sum>e\<leftarrow>ks @ ks'. length e) = 0)"
    by simp
  let ?b = "join_loop ks []"
  have "path_Clean (join_loop (ks @ [[]] @ ks') []) = path_Clean (join_loop (ks @ ks') [])"
  proof (cases "?b = []")
    case True
    then show ?thesis by (simp add: join_loop_append)
  next
    case False
    then show ?thesis
      using path_Clean_skip_slash [OF False at_slash_concat [of ks']]
      by (simp add: join_loop_append join_loop_nonempty)
  qed
  with len show ?thesis unfolding path_Join_def by presburger
qed

lemma path_Join_split_slash:
  assumes "a \<noteq> [] \<or> (\<exists>k\<in>set ks. k \<noteq> [])"
  shows "path_Join (ks @ [a @ ''/'' @ b] @ ks') = path_Join (ks @ [a, b] @ ks')"
proof -
  from assms have ne: "a \<noteq> [] \<or> join_loop ks [] \<noteq> []"
    by (simp add: join_loop_Nil_iff)
  have "join_loop [a @ ''/'' @ b] buf = join_loop [a, b] buf" if "a \<noteq> [] \<or> buf \<noteq> []" for buf
    using that by (cases "a = []"; cases "buf = []") simp_all
  from this [OF ne]
  have "join_loop (ks @ [a @ ''/'' @ b] @ ks') [] = join_loop (ks @ [a, b] @ ks') []"
    unfolding join_loop_append by (rule arg_cong)
  moreover have "((\<Sum>e\<leftarrow>ks @ [a @ ''/'' @ b] @ ks'. length e) = 0)
                   = ((\<Sum>e\<leftarrow>ks @ [a, b] @ ks'. length e) = 0)"
    using assms by auto
  ultimately show ?thesis unfolding path_Join_def by presburger
qed

section \<open>The key path of the response filter\<close>

lemma path_Match_a_star: "path_Match ''a/*'' ''a/b'' = Inr True"
  by code_simp

lemma path_Join_one_name: "path_Join [''a/b''] = ''a/b''"
  by code_simp

lemma path_Join_two_names: "path_Join [''a'', ''b''] = ''a/b''"
  by code_simp

text \<open>
  Claim C10, as amended.  The key path tested against the whitelist is \<^verbatim>\<open>path.Join\<close>
  of the member names, which joins and cleans them as a path; it is not their
  concatenation.  A top-level member named \<^verbatim>\<open>a/b\<close> has the key path \<^verbatim>\<open>a/b\<close>, the
  key path of a member \<^verbatim>\<open>b\<close> of a member \<^verbatim>\<open>a\<close>, and the pattern \<^verbatim>\<open>a/*\<close> keeps
  both.  In general a name \<open>a/b\<close> gives the key path of the two nested names \<open>a\<close> and
  \<open>b\<close> when \<open>a\<close> is not empty or some name before it in the key list is not empty.  A
  member named by the empty string adds nothing to the key path, so \<open>checkFilter\<close> cannot
  tell the key lists apart: \<open>path_Join\<close> is not injective.
\<close>

theorem key_path_is_cleaned_join:
  "path_Join [''a/b''] = ''a/b'' \<and> path_Join [''a'', ''b''] = ''a/b''
   \<and> Filter (JObject [(''a/b'', JNumber n)]) [\<lparr>Methods = ms, ResponseKeys = [''a/*'']\<rparr>]
       = Inr (JObject [(''a/b'', JNumber n)])
   \<and> Filter (JObject [(''a'', JObject [(''b'', JNumber n)])])
         [\<lparr>Methods = ms, ResponseKeys = [''a/*'']\<rparr>]
       = Inr (JObject [(''a'', JObject [(''b'', JNumber n)])])
   \<and> (\<forall>ks a b ks'. a \<noteq> [] \<or> (\<exists>k\<in>set ks. k \<noteq> []) \<longrightarrow>
         path_Join (ks @ [a @ ''/'' @ b] @ ks') = path_Join (ks @ [a, b] @ ks'))
   \<and> (\<forall>ks ks'. path_Join (ks @ [[]] @ ks') = path_Join (ks @ ks'))
   \<and> (\<forall>rules ks ks'. checkFilter rules (ks @ [[]] @ ks') = checkFilter rules (ks @ ks'))
   \<and> \<not> inj path_Join"
proof -
  have ni: "\<not> inj path_Join"
  proof
    assume "inj path_Join"
    then have "[''a/b''] = [''a'', ''b'']"
      by (rule injD) (simp add: path_Join_one_name path_Join_two_names)
    then show False by simp
  qed
  have sp: "\<forall>ks a b ks'. a \<noteq> [] \<or> (\<exists>k\<in>set ks. k \<noteq> []) \<longrightarrow>
         path_Join (ks @ [a @ ''/'' @ b] @ ks') = path_Join (ks @ [a, b] @ ks')"
    using path_Join_split_slash by blast
  have f1: "Filter (JObject [(''a/b'', JNumber n)]) [\<lparr>Methods = ms, ResponseKeys = [''a/*'']\<rparr>]
       = Inr (JObject [(''a/b'', JNumber n)])"
    by (simp add: path_Join_one_name path_Match_a_star Filter_def checkFilter_def)
  have f2: "Filter (JObject [(''a'', JObject [(''b'', JNumber n)])])
         [\<lparr>Methods = ms, ResponseKeys = [''a/*'']\<rparr>]
       = Inr (JObject [(''a'', JObject [(''b'', JNumber n)])])"
    by (simp add: path_Join_two_names path_Match_a_star Filter_def checkFilter_def)
  have em: "\<forall>rules ks ks'. checkFilter rules (ks @ [[]] @ ks') = checkFilter rules (ks @ ks')"
    unfolding checkFilter_def path_Join_skip_empty by simp
  from ni sp f1 f2 em path_Join_skip_empty path_Join_one_name path_Join_two_names
  show ?thesis by blast
qed

theorem key_path_is_cleaned_join_witness:
  "''x'' \<noteq> []
   \<and> path_Join ([''r''] @ [''x'' @ ''/'' @ ''y''] @ [''z''])
       = path_Join ([''r''] @ [''x'', ''y''] @ [''z''])
   \<and> path_Join ([''r''] @ [''x'' @ ''/'' @ ''y''] @ [''z'']) = ''r/x/y/z''
   \<and> (\<exists>k\<in>set [''r'']. k \<noteq> [])
   \<and> path_Join ([''r''] @ [[] @ ''/'' @ ''y''] @ [])
       = path_Join ([''r''] @ [[], ''y''] @ [])
   \<and> path_Join ([''r''] @ [[] @ ''/'' @ ''y''] @ []) = ''r/y''"
proof -
  have a: "''x'' \<noteq> []" by simp
  have a': "\<exists>k\<in>set [''r'']. k \<noteq> []" by simp
  have b: "path_Join ([''r''] @ [''x'' @ ''/'' @ ''y''] @ [''z'']) = ''r/x/y/z''"
    by code_simp
  have b': "path_Join ([''r''] @ [[] @ ''/'' @ ''y''] @ []) = ''r/y''"
    by code_simp
  note t = key_path_is_cleaned_join [where n = "0::nat" and ms = "[]",
      THEN conjunct2, THEN conjunct2, THEN conjunct2, THEN conjunct2, THEN conjunct1, rule_format]
  from t [OF disjI1, OF a, of "[''r'']" "''y''" "[''z'']"]
    t [OF disjI2, OF a', of "[]" "''y''" "[]"] a a' b b'
  show ?thesis by blast
qed

text \<open>
  Claim C10 as it was stated fails for a name that starts with a slash when no name
  before it in the key list is non-empty: the top-level member \<^verbatim>\<open>/b\<close> has the rooted key
  path \<^verbatim>\<open>/b\<close>, whereas the member \<^verbatim>\<open>b\<close> of a member named by the empty string has the
  key path \<^verbatim>\<open>b\<close>.  Under the pattern \<^verbatim>\<open>*\<close> the first is dropped and the second is
  kept.
\<close>

theorem leading_slash_name_is_rooted:
  "path_Join [[] @ ''/'' @ ''b''] = ''/b'' \<and> path_Join [[], ''b''] = ''b''
   \<and> path_Join [[] @ ''/'' @ ''b''] \<noteq> path_Join [[], ''b'']
   \<and> Filter (JObject [(''/b'', JNumber (1::nat))]) [\<lparr>Methods = [''GET''], ResponseKeys = [''*'']\<rparr>]
       = Inr (JObject [])
   \<and> Filter (JObject [([], JObject [(''b'', JNumber (1::nat))])])
         [\<lparr>Methods = [''GET''], ResponseKeys = [''*'']\<rparr>]
       = Inr (JObject [([], JObject [(''b'', JNumber 1)])])"
proof -
  have j1: "path_Join [''/b''] = ''/b''" by code_simp
  have j2: "path_Join [[], ''b''] = ''b''" by code_simp
  have m1: "path_Match ''*'' ''/b'' = Inr False" by code_simp
  have m2: "path_Match ''*'' ''b'' = Inr True" by code_simp
  show ?thesis by (simp add: Filter_def checkFilter_def j1 j2 m1 m2)
qed

section \<open>Properties of the response filter\<close>

text \<open>
  \<open>kept r\<close> is what the loop of a parent appends for a child whose \<^verbatim>\<open>filterJSON\<close>
  returned \<open>r\<close>: the filtered child when it matched, and nothing otherwise.  \<open>is_leaf v\<close>
  holds for the values that \<^verbatim>\<open>filterJSON\<close> tests with \<^verbatim>\<open>checkFilter\<close>: the empty
  array, the empty object and every value that is neither a non-empty array nor a
  non-empty object.
\<close>

definition kept :: "error + ('a \<times> bool) \<Rightarrow> 'a list" where
  "kept r = (case r of Inl e \<Rightarrow> [] | Inr (v, matched) \<Rightarrow> if matched then [v] else [])"

definition is_leaf :: "'n json \<Rightarrow> bool" where
  "is_leaf v = (case v of JArray vt \<Rightarrow> vt = [] | JObject vt \<Rightarrow> vt = [] | _ \<Rightarrow> True)"

lemma appended_simps [simp]:
  "appended [] = JNilSlice" "vf \<noteq> [] \<Longrightarrow> appended vf = JArray vf"
  "appended vf = JNilSlice \<longleftrightarrow> vf = []" "appended vf \<noteq> JArray []"
  by (simp_all add: appended_def)

lemma filterArray_Inr:
  "filterArray vt rules keys = Inr vf \<Longrightarrow>
     (\<forall>ve\<in>set vt. \<exists>r. filterJSON ve rules keys = Inr r)
     \<and> vf = concat (map (\<lambda>ve. kept (filterJSON ve rules keys)) vt)"
proof (induction vt arbitrary: vf)
  case Nil
  then show ?case by simp
next
  case (Cons ve vt)
  from Cons.prems obtain ve' m vf' where 1: "filterJSON ve rules keys = Inr (ve', m)"
    and 2: "filterArray vt rules keys = Inr vf'" and 3: "vf = (if m then ve' # vf' else vf')"
    by (auto split: sum.splits prod.splits)
  from Cons.IH [OF 2] 1 3 show ?case by (simp add: kept_def)
qed

lemma filterArray_all:
  "\<forall>ve\<in>set vt. \<exists>r. filterJSON ve rules keys = Inr r \<Longrightarrow>
   filterArray vt rules keys = Inr (concat (map (\<lambda>ve. kept (filterJSON ve rules keys)) vt))"
  by (induction vt) (auto simp: kept_def)


lemma filterObject_all:
  "\<forall>(k, ve)\<in>set vt. \<exists>r. filterJSON ve rules (keys @ [k]) = Inr r \<Longrightarrow>
   filterObject vt rules keys
     = Inr (concat (map (\<lambda>(k, ve). map (Pair k) (kept (filterJSON ve rules (keys @ [k])))) vt))"
  by (induction vt) (auto simp: kept_def)



lemma filterJSON_leaf:
  "is_leaf v \<Longrightarrow> filterJSON v rules keys = (case checkFilter rules keys of Inl e \<Rightarrow> Inl e | Inr matched \<Rightarrow> Inr (v, matched))"
  by (cases v) (auto simp: is_leaf_def)

lemma refilter_kept:
  fixes v :: "'n json" and vt :: "'n json list" and vo :: "(string \<times> 'n json) list"
  shows "filterJSON v rules keys = Inr (t, True) \<Longrightarrow> filterJSON t rules keys = Inr (t, True)"
    and "filterArray vt rules keys = Inr vf \<Longrightarrow> filterArray vf rules keys = Inr vf"
    and "filterObject vo rules keys = Inr vg \<Longrightarrow> filterObject vg rules keys = Inr vg"
proof (induction v rules keys and vt rules keys and vo rules keys arbitrary: t and vf and vg
    rule: filterJSON_filterArray_filterObject.induct)
  case (1 vt rules keys)
  then show ?case by (auto split: if_splits sum.splits)
next
  case (2 vt rules keys)
  then show ?case by (auto split: if_splits sum.splits)
next
  case (5 ve vt rules keys)
  then show ?case by (auto split: if_splits sum.splits prod.splits)
next
  case (7 k ve vt rules keys)
  then show ?case by (auto split: if_splits sum.splits prod.splits)
qed (auto split: sum.splits)

lemma dropped_tested:
  fixes v :: "'n json" and vt :: "'n json list" and vo :: "(string \<times> 'n json) list"
  shows "filterJSON v rules keys = Inr (t, False) \<Longrightarrow> \<exists>keys'. checkFilter rules keys' = Inr False"
    and "filterArray vt rules keys = Inr [] \<Longrightarrow> vt \<noteq> [] \<Longrightarrow> \<exists>keys'. checkFilter rules keys' = Inr False"
    and "filterObject vo rules keys = Inr [] \<Longrightarrow> vo \<noteq> [] \<Longrightarrow> \<exists>keys'. checkFilter rules keys' = Inr False"
proof (induction v rules keys and vt rules keys and vo rules keys arbitrary: t
    rule: filterJSON_filterArray_filterObject.induct)
  case (1 vt rules keys)
  then show ?case by (auto split: if_splits sum.splits)
next
  case (2 vt rules keys)
  then show ?case by (auto split: if_splits sum.splits)
next
  case (5 ve vt rules keys)
  then show ?case by (auto split: if_splits sum.splits prod.splits)
next
  case (7 k ve vt rules keys)
  then show ?case by (auto split: if_splits sum.splits prod.splits)
qed (auto split: sum.splits)





text \<open>
  Claim C4.  The response filter is idempotent: filtering an already filtered value with
  the same rules gives the same value.  When the first pass fails on a malformed key
  pattern there is no value to filter again, and both sides are that error.
\<close>

theorem Filter_idempotent:
  "(case Filter v rules of Inl e \<Rightarrow> Inl e | Inr t \<Rightarrow> Filter t rules) = Filter v rules"
proof (cases "filterJSON v rules []")
  case (Inl e)
  then show ?thesis by (simp add: Filter_def)
next
  case (Inr r)
  obtain t m where r: "r = (t, m)" by (cases r)
  show ?thesis
  proof (cases m)
    case True
    with Inr r refilter_kept(1) [of v rules "[]" t] show ?thesis by (simp add: Filter_def)
  next
    case False
    with Inr r have f: "filterJSON v rules [] = Inr (t, False)" by simp
    from dropped_tested(1) [OF f] obtain keys' where "checkFilter rules keys' = Inr False" ..
    from checkFilter_total [OF this] obtain b where b: "checkFilter rules [] = Inr b" ..
    have "\<exists>m'. filterJSON t rules [] = Inr (t, m')"
    proof (cases "is_leaf v")
      case True
      with f b show ?thesis by (auto simp: filterJSON_leaf)
    next
      case nl: False
      from nl f have "t = JNilSlice \<or> t = JObject []"
        by (cases v) (auto simp: is_leaf_def split: if_splits sum.splits)
      then have "is_leaf t" by (auto simp: is_leaf_def)
      then show ?thesis using b by (auto simp: filterJSON_leaf)
    qed
    with f show ?thesis by (auto simp: Filter_def)
  qed
qed

text \<open>
  The example of the specification for arrays: an object whose member \<^verbatim>\<open>jobs\<close> is an
  array of two objects.
\<close>

definition jobs_example :: "'n json" where
  "jobs_example =
     JObject [(''jobs'', JArray [JObject [(''name'', JString ''me''), (''day'', JString ''night'')],
                                 JObject [(''other'', JString ''stuff'')]])]"

lemma jobs_name: "checkFilter [\<lparr>Methods = ms, ResponseKeys = [''jobs/*'']\<rparr>] [''jobs'', ''name''] = Inr True"
  "checkFilter [\<lparr>Methods = ms, ResponseKeys = [''jobs/*'']\<rparr>] [''jobs'', ''day''] = Inr True"
  "checkFilter [\<lparr>Methods = ms, ResponseKeys = [''jobs/*'']\<rparr>] [''jobs'', ''other''] = Inr True"
  "checkFilter [\<lparr>Methods = ms, ResponseKeys = [''jobs/*/*'']\<rparr>] [''jobs'', ''name''] = Inr False"
  "checkFilter [\<lparr>Methods = ms, ResponseKeys = [''jobs/*/*'']\<rparr>] [''jobs'', ''day''] = Inr False"
  "checkFilter [\<lparr>Methods = ms, ResponseKeys = [''jobs/*/*'']\<rparr>] [''jobs'', ''other''] = Inr False"
proof -
  have "path_Match ''jobs/*'' (path_Join [''jobs'', ''name'']) = Inr True" by code_simp
  moreover have "path_Match ''jobs/*'' (path_Join [''jobs'', ''day'']) = Inr True" by code_simp
  moreover have "path_Match ''jobs/*'' (path_Join [''jobs'', ''other'']) = Inr True" by code_simp
  moreover have "path_Match ''jobs/*/*'' (path_Join [''jobs'', ''name'']) = Inr False" by code_simp
  moreover have "path_Match ''jobs/*/*'' (path_Join [''jobs'', ''day'']) = Inr False" by code_simp
  moreover have "path_Match ''jobs/*/*'' (path_Join [''jobs'', ''other'']) = Inr False" by code_simp
  ultimately show
    "checkFilter [\<lparr>Methods = ms, ResponseKeys = [''jobs/*'']\<rparr>] [''jobs'', ''name''] = Inr True"
    "checkFilter [\<lparr>Methods = ms, ResponseKeys = [''jobs/*'']\<rparr>] [''jobs'', ''day''] = Inr True"
    "checkFilter [\<lparr>Methods = ms, ResponseKeys = [''jobs/*'']\<rparr>] [''jobs'', ''other''] = Inr True"
    "checkFilter [\<lparr>Methods = ms, ResponseKeys = [''jobs/*/*'']\<rparr>] [''jobs'', ''name''] = Inr False"
    "checkFilter [\<lparr>Methods = ms, ResponseKeys = [''jobs/*/*'']\<rparr>] [''jobs'', ''day''] = Inr False"
    "checkFilter [\<lparr>Methods = ms, ResponseKeys = [''jobs/*/*'']\<rparr>] [''jobs'', ''other''] = Inr False"
    by (simp_all add: checkFilter_def)
qed

text \<open>
  Claim C5.  Descending into an array element appends no segment to the key path: the
  result for a non-empty array is made of the results of \<^verbatim>\<open>filterJSON\<close> for its
  elements under the key list of the array itself.  So with the pattern \<^verbatim>\<open>jobs/*\<close> the
  example keeps \<^verbatim>\<open>name\<close>, \<^verbatim>\<open>day\<close> and \<^verbatim>\<open>other\<close> inside the two objects of the
  array, and with \<^verbatim>\<open>jobs/*/*\<close>, which would match if the index were a segment, it
  keeps nothing.
\<close>

theorem array_elements_inherit_key_path:
  "(\<forall>vt rules keys v' m. vt \<noteq> [] \<longrightarrow> filterJSON (JArray vt) rules keys = Inr (v', m) \<longrightarrow>
       (\<forall>ve\<in>set vt. \<exists>r. filterJSON ve rules keys = Inr r)
       \<and> v' = appended (concat (map (\<lambda>ve. kept (filterJSON ve rules keys)) vt))
       \<and> m = (v' \<noteq> JNilSlice))
   \<and> Filter jobs_example [\<lparr>Methods = ms, ResponseKeys = [''jobs/*'']\<rparr>] = Inr jobs_example
   \<and> Filter jobs_example [\<lparr>Methods = ms, ResponseKeys = [''jobs/*/*'']\<rparr>] = Inr (JObject [])"
proof -
  have "(\<forall>ve\<in>set vt. \<exists>r. filterJSON ve rules keys = Inr r)
       \<and> v' = appended (concat (map (\<lambda>ve. kept (filterJSON ve rules keys)) vt))
       \<and> m = (v' \<noteq> JNilSlice)"
    if "vt \<noteq> []" "filterJSON (JArray vt) rules keys = Inr (v', m)"
    for vt :: "'a json list" and rules keys v' m
  proof -
    from that obtain vf where 1: "filterArray vt rules keys = Inr vf" and 2: "v' = appended vf"
      and 3: "m = (length vf > 0)"
      by (auto split: sum.splits)
    from filterArray_Inr [OF 1] 2 3 show ?thesis by auto
  qed
  then show ?thesis
    by (simp add: jobs_example_def Filter_def jobs_name)
qed

theorem array_elements_inherit_key_path_witness:
  "[JObject [(''name'', JString ''me''), (''day'', JString ''night'')],
    JObject [(''other'', JString ''stuff'')] :: nat json] \<noteq> []
   \<and> filterJSON (JArray [JObject [(''name'', JString ''me''), (''day'', JString ''night'')],
                          JObject [(''other'', JString ''stuff'')] :: nat json])
        [\<lparr>Methods = [], ResponseKeys = [''jobs/*'']\<rparr>] [''jobs'']
      = Inr (JArray [JObject [(''name'', JString ''me''), (''day'', JString ''night'')],
                     JObject [(''other'', JString ''stuff'')]], True)
   \<and> JArray [JObject [(''name'', JString ''me''), (''day'', JString ''night'')],
              JObject [(''other'', JString ''stuff'')] :: nat json]
      = appended (concat (map (\<lambda>ve. kept (filterJSON ve
                                [\<lparr>Methods = [], ResponseKeys = [''jobs/*'']\<rparr>] [''jobs'']))
                  [JObject [(''name'', JString ''me''), (''day'', JString ''night'')],
                   JObject [(''other'', JString ''stuff'')]]))"
proof -
  let ?vt = "[JObject [(''name'', JString ''me''), (''day'', JString ''night'')],
              JObject [(''other'', JString ''stuff'')] :: nat json]"
  have h1: "?vt \<noteq> []" by simp
  have h2: "filterJSON (JArray ?vt) [\<lparr>Methods = [], ResponseKeys = [''jobs/*'']\<rparr>] [''jobs'']
      = Inr (JArray ?vt, True)"
    by (simp add: jobs_name)
  from array_elements_inherit_key_path [where ms = "[]", THEN conjunct1, rule_format, OF h1 h2] h1 h2
  show ?thesis by blast
qed




section \<open>The error of the pattern matcher\<close>

text \<open>The only error that \<^verbatim>\<open>path.Match\<close> returns is \<^verbatim>\<open>ErrBadPattern\<close>.\<close>

lemma getEsc_error: "getEsc chunk = Inl e \<Longrightarrow> e = ErrBadPattern"
  by (auto simp: getEsc_def Let_def split_beta split: list.splits if_splits)

lemma classLoop_error: "classLoop chunk r m n = Inl e \<Longrightarrow> e = ErrBadPattern"
proof (induction chunk r m n rule: classLoop.induct)
  case (1 chunk r match nrange)
  show ?case
  proof (cases "chunk \<noteq> [] \<and> hd chunk = CHR '']'' \<and> nrange > 0")
    case True
    with "1.prems" show ?thesis by (simp add: classLoop.simps [of chunk])
  next
    case False
    note st = "1.prems" [unfolded classLoop_step [OF False]]
    show ?thesis
    proof (cases "getEsc chunk")
      case (Inl e')
      with st getEsc_error [OF Inl] show ?thesis by simp
    next
      case (Inr a)
      obtain lo chunk1 where a: "a = (lo, chunk1)" by (cases a)
      show ?thesis
      proof (cases "hd chunk1 = CHR ''-''")
        case True
        show ?thesis
        proof (cases "getEsc (tl chunk1)")
          case (Inl e')
          with st Inr a True getEsc_error [OF Inl] show ?thesis by simp
        next
          case Inr2: (Inr b)
          obtain hi chunk2 where b: "b = (hi, chunk2)" by (cases b)
          from st Inr a True Inr2 b
          have "classLoop chunk2 r (match \<or> (lo \<le> r \<and> r \<le> hi)) (nrange + 1) = Inl e" by simp
          then show ?thesis
            by (rule "1.IH"(1) [OF False Inr [unfolded a] refl True Inr2 [unfolded b] refl])
        qed
      next
        case hf: False
        from st Inr a hf
        have "classLoop chunk1 r (match \<or> (lo \<le> r \<and> r \<le> lo)) (nrange + 1) = Inl e" by simp
        then show ?thesis by (rule "1.IH"(2) [OF False Inr [unfolded a] refl hf])
      qed
    qed
  qed
qed

lemma matchChunk_loop_error: "matchChunk_loop f chunk s = Inl e \<Longrightarrow> e = ErrBadPattern"
proof (induction chunk arbitrary: f s rule: length_induct)
  case (1 chunk)
  show ?case
  proof (cases chunk)
    case Nil
    with "1.prems" show ?thesis by (simp split: if_splits)
  next
    case (Cons c cs)
    have IH: "\<And>ys f s. length ys \<le> length cs \<Longrightarrow> matchChunk_loop f ys s = Inl e \<Longrightarrow> e = ErrBadPattern"
      using "1.IH" Cons by (fastforce simp: less_Suc_eq_le)
    note p = "1.prems" [unfolded Cons]
    consider (cls) "c = CHR ''[''" | (q) "c \<noteq> CHR ''[''" "c = CHR ''?''"
      | (esc) "c \<noteq> CHR ''[''" "c \<noteq> CHR ''?''" "c = CHR 0x5C"
      | (lit) "c \<noteq> CHR ''[''" "c \<noteq> CHR ''?''" "c \<noteq> CHR 0x5C" by blast
    then show ?thesis
    proof cases
      case cls
      define chunk1 where "chunk1 = (if cs \<noteq> [] \<and> hd cs = CHR ''^'' then tl cs else cs)"
      have len1: "length chunk1 \<le> length cs" by (simp add: chunk1_def)
      define r where "r = (if \<not> (f \<or> s = []) then fst (DecodeRuneInString s) else 0)"
      have unf: "matchChunk_loop f (c # cs) s =
          (case classLoop chunk1 r False 0 of
              Inl e \<Rightarrow> Inl e
            | Inr (match, chunk2) \<Rightarrow>
                matchChunk_loop ((f \<or> s = []) \<or> match = (cs \<noteq> [] \<and> hd cs = CHR ''^'')) chunk2
                  (if \<not> (f \<or> s = []) then drop (snd (DecodeRuneInString s)) s else s))"
        using cls by (simp add: Let_def chunk1_def r_def del: DecodeRuneInString.simps)
      show ?thesis
      proof (cases "classLoop chunk1 r False 0")
        case (Inl e')
        with p unf classLoop_error [OF Inl] show ?thesis by simp
      next
        case (Inr pr)
        obtain m1 chunk2 where pr: "pr = (m1, chunk2)" by (cases pr)
        have "length chunk2 \<le> length cs"
          using classLoop_shorter [OF Inr [unfolded pr]] len1 by simp
        from IH [OF this] p show ?thesis by (simp add: unf Inr pr del: matchChunk_loop.simps)
      qed
    next
      case q
      have ex: "\<exists>a b. matchChunk_loop f (c # cs) s = matchChunk_loop a cs b"
        using q by (auto simp: Let_def simp del: DecodeRuneInString.simps)
      then obtain a b where "matchChunk_loop f (c # cs) s = matchChunk_loop a cs b" by blast
      with IH [of cs a b] p show ?thesis by simp
    next
      case esc
      show ?thesis
      proof (cases cs)
        case Nil
        with esc p show ?thesis by (simp add: Let_def)
      next
        case cs: (Cons d ds)
        have ex: "\<exists>a b. matchChunk_loop f (c # d # ds) s = matchChunk_loop a ds b"
          using esc by (auto simp: Let_def simp del: DecodeRuneInString.simps)
        then obtain a b where "matchChunk_loop f (c # d # ds) s = matchChunk_loop a ds b" by blast
        with IH [of ds a b] p show ?thesis by (simp add: cs)
      qed
    next
      case lit
      have ex: "\<exists>a b. matchChunk_loop f (c # cs) s = matchChunk_loop a cs b"
        using lit by (auto simp: Let_def simp del: DecodeRuneInString.simps)
      then obtain a b where "matchChunk_loop f (c # cs) s = matchChunk_loop a cs b" by blast
      with IH [of cs a b] p show ?thesis by simp
    qed
  qed
qed

lemma matchChunk_error: "matchChunk chunk s = Inl e \<Longrightarrow> e = ErrBadPattern"
  unfolding matchChunk_def by (rule matchChunk_loop_error)

lemma starLoop_error: "starLoop chunk lastc name = Inl e \<Longrightarrow> e = ErrBadPattern"
  by (induction name) (auto split: if_splits sum.splits option.splits dest: matchChunk_error)

lemma nextName_error: "nextName star chunk rest name = Inl e \<Longrightarrow> e = ErrBadPattern"
  by (auto simp: nextName_def split: if_splits sum.splits option.splits
           dest: matchChunk_error starLoop_error)

lemma checkRest_error: "checkRest p = Inl e \<Longrightarrow> e = ErrBadPattern"
proof (induction p rule: checkRest.induct)
  case (1 pattern)
  show ?case
  proof (cases "pattern = []")
    case True
    with "1.prems" show ?thesis by (simp add: checkRest_Nil)
  next
    case False
    obtain star chunk rest where sc: "scanChunk pattern = (star, chunk, rest)"
      by (cases "scanChunk pattern") auto
    from "1.prems" [unfolded checkRest_step [OF False sc]] "1.IH" [OF False sc [symmetric] refl refl]
    show ?thesis by (auto split: sum.splits dest: matchChunk_error)
  qed
qed

lemma path_Match_error: "path_Match p name = Inl e \<Longrightarrow> e = ErrBadPattern"
proof (induction p name rule: path_Match.induct)
  case (1 pattern name)
  show ?case
  proof (cases "pattern = []")
    case True
    with "1.prems" show ?thesis by (simp add: path_Match.simps)
  next
    case False
    obtain star chunk rest where sc: "scanChunk pattern = (star, chunk, rest)"
      by (cases "scanChunk pattern") auto
    note pm = "1.prems" [unfolded path_Match_step [OF False sc]]
    show ?thesis
    proof (cases "star \<and> chunk = []")
      case True
      with pm show ?thesis by simp
    next
      case nt: False
      show ?thesis
      proof (cases "nextName star chunk rest name")
        case (Inl e')
        with pm nt nextName_error [OF Inl] show ?thesis by auto
      next
        case (Inr r)
        show ?thesis
        proof (cases r)
          case None
          with pm nt Inr show ?thesis by (auto dest: checkRest_error)
        next
          case (Some t)
          with pm nt Inr have "path_Match rest t = Inl e" by auto
          then show ?thesis
            by (rule "1.IH" [OF False sc [symmetric] refl refl nt Inr [unfolded Some] refl])
        qed
      qed
    qed
  qed
qed

section \<open>Matching never crosses a slash\<close>

text \<open>
  \<open>slashes s\<close> counts the slashes of a string.  A pattern without character classes
  matches only names with as many slashes as the pattern has itself: a \<^verbatim>\<open>*\<close> and a
  \<^verbatim>\<open>?\<close> never take a slash of the name, and every other byte of the pattern takes
  exactly itself.
\<close>

definition slashes :: "string \<Rightarrow> nat" where
  "slashes s = count_list s (CHR ''/'')"

lemma slashes_simps [simp]:
  "slashes [] = 0" "slashes (c # cs) = (if c = CHR ''/'' then 1 else 0) + slashes cs"
  "slashes (xs @ ys) = slashes xs + slashes ys"
  by (simp_all add: slashes_def)

lemma rune_bytes:
  "snd (DecodeRuneInString (c0 # cs)) = 1
   \<or> (\<exists>c1 cs1. cs = c1 # cs1 \<and> (0x80::nat) \<le> of_char c1 \<and>
        (snd (DecodeRuneInString (c0 # cs)) = 2
         \<or> (\<exists>c2 cs2. cs1 = c2 # cs2 \<and> (0x80::nat) \<le> of_char c2 \<and>
              (snd (DecodeRuneInString (c0 # cs)) = 3
               \<or> (\<exists>c3 cs3. cs2 = c3 # cs3 \<and> (0x80::nat) \<le> of_char c3 \<and>
                     snd (DecodeRuneInString (c0 # cs)) = 4)))))"
proof -
  have lo: "0x80 \<le> accept_lo x" for x by (simp add: accept_lo_def)
  show ?thesis
    unfolding DecodeRuneInString.simps Let_def
    by (simp add: cont_byte_def not_less split: list.split) (use lo in \<open>meson order_trans\<close>)
qed

lemma rune_no_slash:
  assumes "s \<noteq> []" and "hd s \<noteq> CHR ''/''"
  shows "slashes (take (snd (DecodeRuneInString s)) s) = 0"
proof -
  have c: "of_char c \<ge> (0x80::nat) \<Longrightarrow> c \<noteq> CHR ''/''" for c by auto
  from assms obtain c0 cs where s: "s = c0 # cs" by (cases s) auto
  from rune_bytes [of c0 cs] assms(2) show ?thesis
    unfolding s by (elim disjE exE conjE) (auto dest!: c simp del: DecodeRuneInString.simps)
qed

lemma matchChunk_loop_failed: "matchChunk_loop True chunk s \<noteq> Inr (Some t)"
proof (induction chunk arbitrary: s rule: length_induct)
  case (1 chunk)
  show ?case
  proof (cases chunk)
    case Nil
    then show ?thesis by simp
  next
    case (Cons c cs)
    have IH: "\<And>ys s. length ys \<le> length cs \<Longrightarrow> matchChunk_loop True ys s \<noteq> Inr (Some t)"
      using "1.IH" Cons by (fastforce simp: less_Suc_eq_le)
    show ?thesis
    proof (cases "c = CHR ''[''")
      case True
      define chunk1 where "chunk1 = (if cs \<noteq> [] \<and> hd cs = CHR ''^'' then tl cs else cs)"
      have len1: "length chunk1 \<le> length cs" by (simp add: chunk1_def)
      have unf: "matchChunk_loop True (c # cs) s =
          (case classLoop chunk1 0 False 0 of
              Inl e \<Rightarrow> Inl e
            | Inr (match, chunk2) \<Rightarrow>
                matchChunk_loop (True \<or> match = (cs \<noteq> [] \<and> hd cs = CHR ''^'')) chunk2 s)"
        using True by (simp add: Let_def chunk1_def del: DecodeRuneInString.simps)
      show ?thesis
      proof (cases "classLoop chunk1 0 False 0")
        case (Inl e')
        then show ?thesis by (simp add: unf Cons del: matchChunk_loop.simps)
      next
        case (Inr pr)
        obtain m1 chunk2 where pr: "pr = (m1, chunk2)" by (cases pr)
        have "length chunk2 \<le> length cs"
          using classLoop_shorter [OF Inr [unfolded pr]] len1 by simp
        from IH [OF this] show ?thesis by (simp add: unf Inr pr Cons del: matchChunk_loop.simps)
      qed
    next
      case False
      show ?thesis
      proof (cases cs)
        case Nil
        with False Cons show ?thesis by (simp add: Let_def)
      next
        case cs: (Cons d ds)
        from False IH [of cs] IH [of ds] show ?thesis
          by (simp add: Cons cs Let_def del: DecodeRuneInString.simps)
      qed
    qed
  qed
qed

lemma matchChunk_loop_slashes:
  "matchChunk_loop f chunk s = Inr (Some t) \<Longrightarrow> CHR ''['' \<notin> set chunk \<Longrightarrow>
   \<exists>m. s = m @ t \<and> slashes m = slashes chunk"
proof (induction chunk arbitrary: f s rule: length_induct)
  case (1 chunk)
  show ?case
  proof (cases chunk)
    case Nil
    with "1.prems" show ?thesis by (simp split: if_splits)
  next
    case (Cons c cs)
    have IH: "\<And>ys f s. length ys \<le> length cs \<Longrightarrow> matchChunk_loop f ys s = Inr (Some t) \<Longrightarrow>
        CHR ''['' \<notin> set ys \<Longrightarrow> \<exists>m. s = m @ t \<and> slashes m = slashes ys"
      using "1.IH" Cons by (fastforce simp: less_Suc_eq_le)
    note p = "1.prems"(1) [unfolded Cons]
    from p have nf: "\<not> f"
      using matchChunk_loop_failed [of "c # cs" s t] by (cases f) auto
    from "1.prems"(2) Cons have nb: "c \<noteq> CHR ''[''" "CHR ''['' \<notin> set cs" by auto
    have ne: "s \<noteq> []"
    proof
      assume "s = []"
      with p nb nf matchChunk_loop_failed [of cs "[]" t]
        matchChunk_loop_failed [of "tl cs" "[]" t]
      show False by (cases cs) (auto simp: Let_def split: if_splits)
    qed
    consider (q) "c = CHR ''?''" | (esc) "c \<noteq> CHR ''?''" "c = CHR 0x5C"
      | (lit) "c \<noteq> CHR ''?''" "c \<noteq> CHR 0x5C" by blast
    then show ?thesis
    proof cases
      case q
      let ?n = "snd (DecodeRuneInString s)"
      from p q nb nf ne
      have r: "matchChunk_loop (hd s = CHR ''/'') cs (drop ?n s) = Inr (Some t)"
        by (simp add: Let_def del: DecodeRuneInString.simps)
      then have hs: "hd s \<noteq> CHR ''/''"
        using matchChunk_loop_failed [of cs "drop ?n s" t] by (cases "hd s = CHR ''/''") auto
      from IH [OF _ r nb(2)] obtain m where m: "drop ?n s = m @ t" "slashes m = slashes cs"
        by auto
      have "s = (take ?n s @ m) @ t" using m(1) by (metis append_assoc append_take_drop_id)
      moreover have "slashes (take ?n s @ m) = slashes (c # cs)"
        using rune_no_slash [OF ne hs] m(2) q by simp
      ultimately show ?thesis unfolding Cons by blast
    next
      case esc
      from p esc nb nf ne obtain d ds where cs: "cs = d # ds"
        by (cases cs) (auto simp: Let_def)
      from p esc nb nf ne cs
      have r: "matchChunk_loop (d \<noteq> hd s) ds (tl s) = Inr (Some t)"
        by (simp add: Let_def)
      then have hs: "hd s = d"
        using matchChunk_loop_failed [of ds "tl s" t] by (cases "d = hd s") auto
      from nb cs have "CHR ''['' \<notin> set ds" by simp
      from IH [OF _ r this] cs obtain m where m: "tl s = m @ t" "slashes m = slashes ds"
        by auto
      have "s = (d # m) @ t" using m(1) hs ne by (cases s) auto
      moreover have "slashes (d # m) = slashes (c # cs)" using m(2) esc cs by simp
      ultimately show ?thesis unfolding Cons by blast
    next
      case lit
      from p lit nb nf ne
      have r: "matchChunk_loop (c \<noteq> hd s) cs (tl s) = Inr (Some t)"
        by (simp add: Let_def)
      then have hs: "hd s = c"
        using matchChunk_loop_failed [of cs "tl s" t] by (cases "c = hd s") auto
      from IH [OF _ r nb(2)] obtain m where m: "tl s = m @ t" "slashes m = slashes cs"
        by auto
      have "s = (c # m) @ t" using m(1) hs ne by (cases s) auto
      moreover have "slashes (c # m) = slashes (c # cs)" using m(2) by simp
      ultimately show ?thesis unfolding Cons by blast
    qed
  qed
qed

lemma matchChunk_slashes:
  "matchChunk chunk s = Inr (Some t) \<Longrightarrow> CHR ''['' \<notin> set chunk \<Longrightarrow>
   \<exists>m. s = m @ t \<and> slashes m = slashes chunk"
  unfolding matchChunk_def by (rule matchChunk_loop_slashes)

lemma starLoop_slashes:
  "starLoop chunk lastc name = Inr (Some t) \<Longrightarrow> CHR ''['' \<notin> set chunk \<Longrightarrow>
   \<exists>m. name = m @ t \<and> slashes m = slashes chunk"
proof (induction name)
  case Nil
  then show ?case by simp
next
  case (Cons c cs)
  from Cons.prems(1) have c: "c \<noteq> CHR ''/''" by (auto split: if_splits)
  from Cons.prems(1) c consider
      (here) "matchChunk chunk cs = Inr (Some t)"
    | (later) "starLoop chunk lastc cs = Inr (Some t)"
    by (auto split: sum.splits option.splits if_splits)
  then show ?case
  proof cases
    case here
    from matchChunk_slashes [OF here Cons.prems(2)] obtain m
      where "cs = m @ t" "slashes m = slashes chunk" by blast
    with c have "c # cs = (c # m) @ t \<and> slashes (c # m) = slashes chunk" by simp
    then show ?thesis by blast
  next
    case later
    from Cons.IH [OF later Cons.prems(2)] obtain m
      where "cs = m @ t" "slashes m = slashes chunk" by blast
    with c have "c # cs = (c # m) @ t \<and> slashes (c # m) = slashes chunk" by simp
    then show ?thesis by blast
  qed
qed

lemma nextName_slashes:
  "nextName star chunk rest name = Inr (Some t) \<Longrightarrow> CHR ''['' \<notin> set chunk \<Longrightarrow>
   \<exists>m. name = m @ t \<and> slashes m = slashes chunk"
  by (auto simp: nextName_def split: sum.splits option.splits if_splits
           dest: matchChunk_slashes starLoop_slashes)

lemma slashes_dropWhile_star: "slashes (dropWhile (\<lambda>c. c = CHR ''*'') p) = slashes p"
  by (induction p) auto

lemma scanChunk_slashes:
  assumes "scanChunk p = (star, chunk, rest)"
  shows "slashes p = slashes chunk + slashes rest" and "set chunk \<subseteq> set p" and "set rest \<subseteq> set p"
proof -
  let ?q = "dropWhile (\<lambda>c. c = CHR ''*'') p"
  from assms have "scan False ?q = (chunk, rest)"
    by (auto simp: scanChunk_def Let_def split: prod.splits)
  from scan_append [OF this] have q: "chunk @ rest = ?q" .
  from q slashes_dropWhile_star [of p] show "slashes p = slashes chunk + slashes rest"
    by (metis slashes_simps(3))
  from q set_dropWhileD [of _ "\<lambda>c. c = CHR ''*''" p]
  show "set chunk \<subseteq> set p" and "set rest \<subseteq> set p"
    by (metis Un_iff set_append subsetI)+
qed

lemma checkRest_not_True: "checkRest p \<noteq> Inr True"
proof (induction p rule: checkRest.induct)
  case (1 pattern)
  show ?case
  proof (cases "pattern = []")
    case True
    then show ?thesis by (simp add: checkRest_Nil)
  next
    case False
    obtain star chunk rest where sc: "scanChunk pattern = (star, chunk, rest)"
      by (cases "scanChunk pattern") auto
    from "1.IH" [OF False sc [symmetric] refl refl]
    show ?thesis unfolding checkRest_step [OF False sc] by (auto split: sum.splits)
  qed
qed

lemma path_Match_slashes:
  "path_Match p name = Inr True \<Longrightarrow> CHR ''['' \<notin> set p \<Longrightarrow> slashes name = slashes p"
proof (induction p name rule: path_Match.induct)
  case (1 pattern name)
  show ?case
  proof (cases "pattern = []")
    case True
    with "1.prems" show ?thesis by (simp add: path_Match.simps)
  next
    case False
    obtain star chunk rest where sc: "scanChunk pattern = (star, chunk, rest)"
      by (cases "scanChunk pattern") auto
    note pm = "1.prems"(1) [unfolded path_Match_step [OF False sc]]
    note ss = scanChunk_slashes [OF sc]
    show ?thesis
    proof (cases "star \<and> chunk = []")
      case True
      with sc have "rest = []" by (auto dest: scanChunk_empty_chunk)
      moreover from pm True have "CHR ''/'' \<notin> set name" by simp
      then have "slashes name = 0" by (simp add: slashes_def)
      ultimately show ?thesis using ss(1) True by simp
    next
      case nt: False
      from pm nt checkRest_not_True [of rest] obtain t
        where nn: "nextName star chunk rest name = Inr (Some t)"
          and r: "path_Match rest t = Inr True"
        by (auto split: sum.splits option.splits)
      from ss "1.prems"(2) have nb: "CHR ''['' \<notin> set chunk" "CHR ''['' \<notin> set rest" by auto
      from nextName_slashes [OF nn nb(1)] obtain m
        where m: "name = m @ t" "slashes m = slashes chunk" by blast
      from "1.IH" [OF False sc [symmetric] refl refl nt nn refl r nb(2)]
      have "slashes t = slashes rest" .
      with m ss(1) show ?thesis by simp
    qed
  qed
qed

section \<open>Properties of the authorization loops\<close>

text \<open>
  \<open>matched_rules rr path m\<close> are the rules of a role whose pattern matches the path and
  whose methods hold the method or the wildcard, in the order of the role.
  \<open>patterns_ok rr path\<close>: \<^verbatim>\<open>path.Match\<close> reports no malformed pattern for the role.
\<close>

definition matched_rules :: "Role \<Rightarrow> string \<Rightarrow> string \<Rightarrow> Rule list" where
  "matched_rules rr path m =
     map snd (filter (\<lambda>(pattern, rule). path_Match pattern path = Inr True
                                       \<and> (m \<in> set (Methods rule) \<or> ''*'' \<in> set (Methods rule))) rr)"

definition patterns_ok :: "Role \<Rightarrow> string \<Rightarrow> bool" where
  "patterns_ok rr path \<longleftrightarrow> (\<forall>(pattern, rule)\<in>set rr. path_Match pattern path \<noteq> Inl ErrBadPattern)"

lemma methods_allow_iff: "methods_allow ms m \<longleftrightarrow> m \<in> set ms \<or> ''*'' \<in> set ms"
  by (induction ms) auto

lemma match_role_patterns_ok:
  "patterns_ok rr path \<Longrightarrow> match_role rr path m matches = Inr (matches @ matched_rules rr path m)"
proof (induction rr arbitrary: matches)
  case Nil
  then show ?case by (simp add: matched_rules_def)
next
  case (Cons pr rr)
  obtain pattern rule where pr: "pr = (pattern, rule)" by (cases pr)
  from Cons.prems have wf: "patterns_ok rr path" and ok: "path_Match pattern path \<noteq> Inl ErrBadPattern"
    by (auto simp: patterns_ok_def pr)
  from ok obtain b where b: "path_Match pattern path = Inr b"
    by (cases "path_Match pattern path") (auto dest: path_Match_error)
  show ?case
    by (simp add: pr b Cons.IH [OF wf] matched_rules_def methods_allow_iff)
qed

lemma match_role_malformed:
  "\<not> patterns_ok rr path \<Longrightarrow> match_role rr path m matches = Inl ErrBadPattern"
proof (induction rr arbitrary: matches)
  case Nil
  then show ?case by (simp add: patterns_ok_def)
next
  case (Cons pr rr)
  obtain pattern rule where pr: "pr = (pattern, rule)" by (cases pr)
  show ?case
  proof (cases "path_Match pattern path")
    case (Inl e)
    with path_Match_error [OF Inl] show ?thesis by (simp add: pr)
  next
    case (Inr b)
    with Cons.prems have "\<not> patterns_ok rr path" by (auto simp: patterns_ok_def pr)
    from Cons.IH [OF this] Inr show ?thesis by (simp add: pr)
  qed
qed

lemma match_roles_all_known:
  assumes "\<forall>role\<in>set roles. \<exists>rr. reg role = Some rr \<and> patterns_ok rr path"
  shows "match_roles reg roles path m matches
           = Matches (matches @ concat (map (\<lambda>role. matched_rules (the (reg role)) path m) roles))"
  using assms
proof (induction roles arbitrary: matches)
  case Nil
  then show ?case by simp
next
  case (Cons role roles)
  from Cons.prems obtain rr where rr: "reg role = Some rr" "patterns_ok rr path" by auto
  from Cons.prems have "\<forall>role\<in>set roles. \<exists>rr. reg role = Some rr \<and> patterns_ok rr path" by simp
  from Cons.IH [OF this] rr show ?case
    by (simp add: match_role_patterns_ok)
qed

lemma match_roles_missing:
  assumes "\<forall>x\<in>set pre. \<exists>rr. reg x = Some rr" and "reg role = None"
  shows "match_roles reg (pre @ role # post) path m matches =
           (if \<forall>x\<in>set pre. patterns_ok (the (reg x)) path then RoleMissing role
            else PatternPanic ErrBadPattern)"
  using assms(1)
proof (induction pre arbitrary: matches)
  case Nil
  then show ?case by (simp add: assms(2))
next
  case (Cons x pre)
  from Cons.prems obtain rr where rr: "reg x = Some rr" by auto
  from Cons.prems have pre: "\<forall>x\<in>set pre. \<exists>rr. reg x = Some rr" by simp
  show ?case
  proof (cases "patterns_ok rr path")
    case True
    with Cons.IH [OF pre] rr show ?thesis by (simp add: match_role_patterns_ok)
  next
    case False
    with rr show ?thesis by (simp add: match_role_malformed)
  qed
qed

section \<open>Authorization and forwarding\<close>

text \<open>
  The examples: a proxy whose \<open>KeyOpener\<close> opens every token to the given key and whose
  upstream does not answer, a role with the two path patterns of the candidates of the
  tests, a role with a malformed pattern, and a \<^verbatim>\<open>GET\<close> request.
\<close>

definition proxy_with :: "Key \<Rightarrow> (string \<rightharpoonup> Role) \<Rightarrow> Proxy" where
  "proxy_with key reg =
     \<lparr>KeyOpener = (\<lambda>user. Inr key), ProxyRoles = reg,
      Transport = (\<lambda>r apiKey. Inl ErrTransport)\<rparr>"

definition no_json :: "nat encoding_json" where
  "no_json = \<lparr>Unmarshal = (\<lambda>input. Inl ErrUnmarshal), Marshal = (\<lambda>v. Inl ErrMarshal)\<rparr>"

definition candidates_role :: Role where
  "candidates_role =
     [(''/candidates/*'',
         \<lparr>Methods = [''GET''], ResponseKeys = [''id'', ''jobs'', ''jobs/*'']\<rparr>),
      (''/candidates/*/*/*'',
         \<lparr>Methods = [''GET'', ''POST''], ResponseKeys = [''name/first'']\<rparr>)]"

definition candidates_key :: Key where
  "candidates_key = \<lparr>CreatedAt = time_Unix 0 0, Roles = [''candidates''], APIKey = ''secret''\<rparr>"

definition mixed_key :: Key where
  "mixed_key = \<lparr>CreatedAt = time_Unix 0 0, Roles = [''known'', ''unknown''], APIKey = ''secret''\<rparr>"

definition staff_key :: Key where
  "staff_key = \<lparr>CreatedAt = time_Unix 0 0, Roles = [''staff''], APIKey = ''secret''\<rparr>"

definition malformed_role :: Role where
  "malformed_role = [(''['', \<lparr>Methods = [''GET''], ResponseKeys = [''id'']\<rparr>)]"

definition get :: "string \<Rightarrow> Request" where
  "get path = \<lparr>BasicAuth = Some ''token'', Method = ''GET'', URLPath = path\<rparr>"

lemma authenticate_Transport [simp]: "authenticate (p\<lparr>Transport := t\<rparr>) r = authenticate p r"
  by (simp add: authenticate_def split: option.splits)

lemma malformed_pattern: "path_Match ''['' ''/x'' = Inl ErrBadPattern"
  by code_simp

lemma candidates_two_segments:
  "path_Match ''/candidates/*'' ''/candidates/baz'' = Inr True"
  "path_Match ''/candidates/*/*/*'' ''/candidates/baz'' = Inr False"
  by code_simp+

lemma candidates_three_segments:
  "path_Match ''/candidates/*'' ''/candidates/baz/boz'' = Inr False"
  "path_Match ''/candidates/*/*/*'' ''/candidates/baz/boz'' = Inr False"
  by code_simp+

lemma matched_rules_iff:
  "rule \<in> set (matched_rules rr path m) \<longleftrightarrow>
     (\<exists>pattern. (pattern, rule) \<in> set rr \<and> path_Match pattern path = Inr True
        \<and> (m \<in> set (Methods rule) \<or> ''*'' \<in> set (Methods rule)))"
  unfolding matched_rules_def by force

lemma scanChunk_star: "scanChunk ''*'' = (True, [], [])"
  by (simp add: scanChunk_def)

lemma path_Match_star: "path_Match ''*'' name = Inr (CHR ''/'' \<notin> set name)"
  by (subst path_Match.simps) (simp add: scanChunk_star)

text \<open>
  Claim C2, as amended.  When the key of the request names a role that the registry does
  not have, the handler never reaches the upstream: it answers 401, naming the first such
  role of the key, unless \<^verbatim>\<open>path.Match\<close> reports a malformed pattern for a role listed
  before that one, in which case the handler panics with \<^verbatim>\<open>path.ErrBadPattern\<close>.
  Whether another role of the key has a rule that matches the request makes no
  difference.
\<close>

theorem missing_role_is_rejected:
  assumes auth: "authenticate p r = Inr key"
    and mem: "role \<in> set (Roles key)" and none: "ProxyRoles p role = None"
  shows "\<exists>pre missing post.
           Roles key = pre @ missing # post \<and> ProxyRoles p missing = None
           \<and> (\<forall>x\<in>set pre. ProxyRoles p x \<noteq> None)
           \<and> ServeHTTP js p r =
               (if \<forall>x\<in>set pre. patterns_ok (the (ProxyRoles p x)) (URLPath r)
                then unauthorized (''Role '' @ missing @ '' does not exist'')
                else Panicked ErrBadPattern None)
           \<and> (\<forall>t. ServeHTTP js (p\<lparr>Transport := t\<rparr>) r = ServeHTTP js p r)"
proof -
  from mem none have "\<exists>x\<in>set (Roles key). ProxyRoles p x = None" by blast
  from split_list_first_prop [OF this] obtain pre missing post
    where sp: "Roles key = pre @ missing # post" and m: "ProxyRoles p missing = None"
      and pre: "\<forall>x\<in>set pre. ProxyRoles p x \<noteq> None"
    by blast
  from pre have pre': "\<forall>x\<in>set pre. \<exists>rr. ProxyRoles p x = Some rr" by simp
  note mr = match_roles_missing [OF pre' m, of post]
  have 1: "ServeHTTP js p' r =
               (if \<forall>x\<in>set pre. patterns_ok (the (ProxyRoles p x)) (URLPath r)
                then unauthorized (''Role '' @ missing @ '' does not exist'')
                else Panicked ErrBadPattern None)"
    if "authenticate p' r = Inr key" "ProxyRoles p' = ProxyRoles p" for p'
    using that by (simp add: ServeHTTP_def sp mr)
  from 1 [of p] 1 [of "p\<lparr>Transport := t\<rparr>" for t] auth sp m pre show ?thesis
    by (intro exI [of _ pre] exI [of _ missing] exI [of _ post]) simp
qed

theorem missing_role_is_rejected_witness:
  "authenticate (proxy_with mixed_key [''known'' \<mapsto> candidates_role]) (get ''/candidates/baz'')
     = Inr mixed_key
   \<and> ''unknown'' \<in> set (Roles mixed_key)
   \<and> [''known'' \<mapsto> candidates_role] ''unknown'' = None
   \<and> matched_rules candidates_role ''/candidates/baz'' ''GET''
       = [\<lparr>Methods = [''GET''], ResponseKeys = [''id'', ''jobs'', ''jobs/*'']\<rparr>]
   \<and> ServeHTTP no_json (proxy_with mixed_key [''known'' \<mapsto> candidates_role])
         (get ''/candidates/baz'')
       = unauthorized ''Role unknown does not exist''"
proof -
  let ?p = "proxy_with mixed_key [''known'' \<mapsto> candidates_role]"
  let ?r = "get ''/candidates/baz''"
  have a: "authenticate ?p ?r = Inr mixed_key"
    by (simp add: authenticate_def proxy_with_def get_def)
  have m: "''unknown'' \<in> set (Roles mixed_key)" by (simp add: mixed_key_def)
  have n: "ProxyRoles ?p ''unknown'' = None" by (simp add: proxy_with_def)
  have ok: "patterns_ok candidates_role ''/candidates/baz''"
    by (simp add: patterns_ok_def candidates_role_def candidates_two_segments)
  have mt: "matched_rules candidates_role ''/candidates/baz'' ''GET''
       = [\<lparr>Methods = [''GET''], ResponseKeys = [''id'', ''jobs'', ''jobs/*'']\<rparr>]"
    by (simp add: matched_rules_def candidates_role_def candidates_two_segments)
  from missing_role_is_rejected [OF a m n, of no_json] obtain pre missing post
    where sp: "Roles mixed_key = pre @ missing # post"
      and mi: "ProxyRoles ?p missing = None" and pr: "\<forall>x\<in>set pre. ProxyRoles ?p x \<noteq> None"
      and s: "ServeHTTP no_json ?p ?r =
               (if \<forall>x\<in>set pre. patterns_ok (the (ProxyRoles ?p x)) (URLPath ?r)
                then unauthorized (''Role '' @ missing @ '' does not exist'')
                else Panicked ErrBadPattern None)"
    by blast
  from sp mi have "missing = ''unknown''"
    by (auto simp: mixed_key_def proxy_with_def Cons_eq_append_conv split: if_splits)
  moreover from sp this have "pre = [''known'']"
    by (auto simp: mixed_key_def Cons_eq_append_conv)
  ultimately have "ServeHTTP no_json ?p ?r = unauthorized ''Role unknown does not exist''"
    using s ok by (simp add: proxy_with_def get_def)
  with a m n mt show ?thesis by (simp add: proxy_with_def)
qed

text \<open>
  Claim C2 as it was stated fails when a role listed before the missing one has a
  malformed pattern: the key names \<^verbatim>\<open>known\<close> and then \<^verbatim>\<open>unknown\<close>, the registry has
  only \<^verbatim>\<open>known\<close>, whose one pattern is \<^verbatim>\<open>[\<close>, and the handler panics instead of
  answering 401.
\<close>

theorem malformed_pattern_before_missing_role:
  "authenticate (proxy_with mixed_key [''known'' \<mapsto> malformed_role]) (get ''/x'') = Inr mixed_key
   \<and> ''unknown'' \<in> set (Roles mixed_key)
   \<and> [''known'' \<mapsto> malformed_role] ''unknown'' = None
   \<and> ServeHTTP no_json (proxy_with mixed_key [''known'' \<mapsto> malformed_role]) (get ''/x'')
       = Panicked ErrBadPattern None"
  by (simp add: authenticate_def ServeHTTP_def proxy_with_def get_def mixed_key_def
        malformed_role_def malformed_pattern)

text \<open>
  Claim C3, as amended.  When every role of the key is in the registry and
  \<^verbatim>\<open>path.Match\<close> reports no malformed pattern for these roles, the handler collects
  exactly the rules of these roles whose pattern matches the path of the request and whose
  methods hold the method of the request or \<^verbatim>\<open>*\<close>, and if there is none it answers
  401.  Matching is by segment: a pattern without character classes matches only names
  with as many slashes as it has itself, so \<^verbatim>\<open>*\<close> and \<^verbatim>\<open>?\<close> never match a slash; the
  pattern \<^verbatim>\<open>*\<close> matches exactly the names without a slash.  The pattern
  \<^verbatim>\<open>/candidates/*\<close> does not match \<^verbatim>\<open>/candidates/baz/boz\<close>, and a \<^verbatim>\<open>GET\<close> of that
  path with the role of the candidates is answered 401.
\<close>

theorem matched_rule_set:
  assumes auth: "authenticate p r = Inr key"
    and all: "\<forall>role\<in>set (Roles key). \<exists>rr. ProxyRoles p role = Some rr \<and> patterns_ok rr (URLPath r)"
  shows "(\<exists>ms. match_roles (ProxyRoles p) (Roles key) (URLPath r) (Method r) [] = Matches ms
           \<and> (\<forall>rule. rule \<in> set ms \<longleftrightarrow>
                 (\<exists>role\<in>set (Roles key). \<exists>rr pattern.
                     ProxyRoles p role = Some rr \<and> (pattern, rule) \<in> set rr
                     \<and> path_Match pattern (URLPath r) = Inr True
                     \<and> (Method r \<in> set (Methods rule) \<or> ''*'' \<in> set (Methods rule))))
           \<and> (ms = [] \<longrightarrow>
                 ServeHTTP js p r
                   = unauthorized ''You do not have permission to access this resource''))
         \<and> (\<forall>pattern name. CHR ''['' \<notin> set pattern \<longrightarrow> path_Match pattern name = Inr True \<longrightarrow>
                slashes name = slashes pattern)
         \<and> (\<forall>name. path_Match ''*'' name = Inr (CHR ''/'' \<notin> set name))
         \<and> path_Match ''/candidates/*'' ''/candidates/baz/boz'' = Inr False
         \<and> ServeHTTP js (proxy_with candidates_key [''candidates'' \<mapsto> candidates_role])
               (get ''/candidates/baz/boz'')
             = unauthorized ''You do not have permission to access this resource''"
proof -
  let ?f = "\<lambda>role. matched_rules (the (ProxyRoles p role)) (URLPath r) (Method r)"
  let ?ms = "concat (map ?f (Roles key))"
  have mr: "match_roles (ProxyRoles p) (Roles key) (URLPath r) (Method r) [] = Matches ?ms"
    using match_roles_all_known [OF all, of "Method r" "[]"] by simp
  have iff: "rule \<in> set ?ms \<longleftrightarrow>
               (\<exists>role\<in>set (Roles key). \<exists>rr pattern.
                   ProxyRoles p role = Some rr \<and> (pattern, rule) \<in> set rr
                   \<and> path_Match pattern (URLPath r) = Inr True
                   \<and> (Method r \<in> set (Methods rule) \<or> ''*'' \<in> set (Methods rule)))"
    (is "?L \<longleftrightarrow> ?R") for rule
  proof
    assume ?L
    then obtain role where role: "role \<in> set (Roles key)" and in_f: "rule \<in> set (?f role)"
      by auto
    from all role obtain rr where rr: "ProxyRoles p role = Some rr" by blast
    from in_f rr obtain pattern where "(pattern, rule) \<in> set rr"
      "path_Match pattern (URLPath r) = Inr True"
      "Method r \<in> set (Methods rule) \<or> ''*'' \<in> set (Methods rule)"
      by (auto simp: matched_rules_iff)
    with role rr show ?R by blast
  next
    assume ?R
    then obtain role rr pattern where role: "role \<in> set (Roles key)"
      and rr: "ProxyRoles p role = Some rr" and "(pattern, rule) \<in> set rr"
      "path_Match pattern (URLPath r) = Inr True"
      "Method r \<in> set (Methods rule) \<or> ''*'' \<in> set (Methods rule)"
      by blast
    then have "rule \<in> set (?f role)" by (auto simp: matched_rules_iff)
    with role show ?L by auto
  qed
  have un: "ServeHTTP js p r = unauthorized ''You do not have permission to access this resource''"
    if "?ms = []"
    using that auth mr by (simp add: ServeHTTP_def)
  have A: "\<exists>ms. match_roles (ProxyRoles p) (Roles key) (URLPath r) (Method r) [] = Matches ms
           \<and> (\<forall>rule. rule \<in> set ms \<longleftrightarrow>
                 (\<exists>role\<in>set (Roles key). \<exists>rr pattern.
                     ProxyRoles p role = Some rr \<and> (pattern, rule) \<in> set rr
                     \<and> path_Match pattern (URLPath r) = Inr True
                     \<and> (Method r \<in> set (Methods rule) \<or> ''*'' \<in> set (Methods rule))))
           \<and> (ms = [] \<longrightarrow>
                 ServeHTTP js p r
                   = unauthorized ''You do not have permission to access this resource'')"
  proof (intro exI [of _ ?ms] conjI allI impI)
    show "match_roles (ProxyRoles p) (Roles key) (URLPath r) (Method r) [] = Matches ?ms"
      by (rule mr)
  next
    fix rule
    show "rule \<in> set ?ms \<longleftrightarrow>
               (\<exists>role\<in>set (Roles key). \<exists>rr pattern.
                   ProxyRoles p role = Some rr \<and> (pattern, rule) \<in> set rr
                   \<and> path_Match pattern (URLPath r) = Inr True
                   \<and> (Method r \<in> set (Methods rule) \<or> ''*'' \<in> set (Methods rule)))"
      by (rule iff)
  next
    assume "?ms = []"
    then show "ServeHTTP js p r = unauthorized ''You do not have permission to access this resource''"
      by (rule un)
  qed
  have B: "\<forall>pattern name. CHR ''['' \<notin> set pattern \<longrightarrow> path_Match pattern name = Inr True \<longrightarrow>
                slashes name = slashes pattern"
    using path_Match_slashes by blast
  have C: "\<forall>name. path_Match ''*'' name = Inr (CHR ''/'' \<notin> set name)"
    using path_Match_star by blast
  have D: "ServeHTTP js (proxy_with candidates_key [''candidates'' \<mapsto> candidates_role])
               (get ''/candidates/baz/boz'')
             = unauthorized ''You do not have permission to access this resource''"
    by (simp add: ServeHTTP_def authenticate_def proxy_with_def get_def candidates_key_def
          candidates_role_def candidates_three_segments)
  from A B C D candidates_three_segments(1) show ?thesis by (intro conjI)
qed

theorem matched_rule_set_witness:
  "authenticate (proxy_with candidates_key [''candidates'' \<mapsto> candidates_role])
       (get ''/candidates/baz/boz'') = Inr candidates_key
   \<and> Roles candidates_key = [''candidates'']
   \<and> [''candidates'' \<mapsto> candidates_role] ''candidates'' = Some candidates_role
   \<and> patterns_ok candidates_role ''/candidates/baz/boz''
   \<and> match_roles [''candidates'' \<mapsto> candidates_role] (Roles candidates_key)
         ''/candidates/baz/boz'' ''GET'' [] = Matches []
   \<and> CHR ''['' \<notin> set ''/candidates/*''
   \<and> path_Match ''/candidates/*'' ''/candidates/baz'' = Inr True
   \<and> slashes ''/candidates/baz'' = slashes ''/candidates/*''
   \<and> ServeHTTP no_json (proxy_with candidates_key [''candidates'' \<mapsto> candidates_role])
         (get ''/candidates/baz/boz'')
       = unauthorized ''You do not have permission to access this resource''"
proof -
  let ?p = "proxy_with candidates_key [''candidates'' \<mapsto> candidates_role]"
  let ?r = "get ''/candidates/baz/boz''"
  have a: "authenticate ?p ?r = Inr candidates_key"
    by (simp add: authenticate_def proxy_with_def get_def)
  have ro: "Roles candidates_key = [''candidates'']" by (simp add: candidates_key_def)
  have ok: "patterns_ok candidates_role ''/candidates/baz/boz''"
    by (simp add: patterns_ok_def candidates_role_def candidates_three_segments)
  have all: "\<forall>role\<in>set (Roles candidates_key).
      \<exists>rr. ProxyRoles ?p role = Some rr \<and> patterns_ok rr (URLPath ?r)"
    using ok by (simp add: ro proxy_with_def get_def)
  have mr: "match_roles [''candidates'' \<mapsto> candidates_role] (Roles candidates_key)
         ''/candidates/baz/boz'' ''GET'' [] = Matches []"
    by (simp add: ro candidates_role_def candidates_three_segments)
  have nb: "CHR ''['' \<notin> set ''/candidates/*''" by simp
  note t = matched_rule_set [OF a all, of no_json]
  from t obtain ms where
    ms: "match_roles (ProxyRoles ?p) (Roles candidates_key) (URLPath ?r) (Method ?r) [] = Matches ms"
    and un: "ms = [] \<longrightarrow> ServeHTTP no_json ?p ?r
        = unauthorized ''You do not have permission to access this resource''"
    by blast
  from ms mr have "ms = []" by (simp add: proxy_with_def get_def)
  with un have s: "ServeHTTP no_json ?p ?r
        = unauthorized ''You do not have permission to access this resource''" by blast
  from t have "\<forall>pattern name. CHR ''['' \<notin> set pattern \<longrightarrow> path_Match pattern name = Inr True \<longrightarrow>
                slashes name = slashes pattern" by blast
  with nb candidates_two_segments(1)
  have sl: "slashes ''/candidates/baz'' = slashes ''/candidates/*''" by blast
  from a ro ok mr nb candidates_two_segments(1) sl s show ?thesis by simp
qed

text \<open>
  Claim C3 as it was stated fails when a pattern of a role is malformed: every role of
  the key is in the registry and no rule matches, and the handler panics instead of
  answering 401.
\<close>

theorem malformed_pattern_panics:
  "authenticate (proxy_with staff_key [''staff'' \<mapsto> malformed_role]) (get ''/x'') = Inr staff_key
   \<and> Roles staff_key = [''staff'']
   \<and> [''staff'' \<mapsto> malformed_role] ''staff'' = Some malformed_role
   \<and> path_Match ''['' ''/x'' = Inl ErrBadPattern
   \<and> ServeHTTP no_json (proxy_with staff_key [''staff'' \<mapsto> malformed_role]) (get ''/x'')
       = Panicked ErrBadPattern None"
  by (simp add: authenticate_def ServeHTTP_def proxy_with_def get_def staff_key_def
        malformed_role_def malformed_pattern)

text \<open>
  The example of claim C7: the upstream answers a \<^verbatim>\<open>GET\<close> of \<^verbatim>\<open>/candidates/baz\<close> with
  an object of two members, of which the rule of the path keeps \<^verbatim>\<open>id\<close>.  The two
  functions of \<open>example_json\<close> decode that body and encode what is kept of it.
\<close>

definition example_json :: "nat encoding_json" where
  \<open>example_json =
     \<lparr>Unmarshal = (\<lambda>input. if input = ''{"id":123,"secret":"stuff"}''
                             then Inr (JObject [(''id'', JNumber 123), (''secret'', JString ''stuff'')])
                             else Inl ErrUnmarshal),
      Marshal = (\<lambda>v. if v = JObject [(''id'', JNumber 123)] then Inr ''{"id":123}''
                       else Inl ErrMarshal)\<rparr>\<close>

definition upstream :: "nat \<Rightarrow> Request \<Rightarrow> string \<Rightarrow> error + (string \<times> nat)" where
  \<open>upstream status r apiKey = Inr (''{"id":123,"secret":"stuff"}'', status)\<close>

text \<open>
  Claim C7.  For a request that is authenticated and for which the handler collected at
  least one rule, and an upstream that answered: when the status code is 300 or more the
  body is written as it came; when it is below 300 the body is parsed, the parsed value
  is filtered with the collected rules, the result is encoded, and that is written.  When
  one of the three steps fails nothing is written: the handler panics, after the status
  code has been written.
\<close>

theorem response_shaping:
  assumes "authenticate p r = Inr key"
    and "match_roles (ProxyRoles p) (Roles key) (URLPath r) (Method r) [] = Matches matches"
    and "matches \<noteq> []"
    and "Transport p r (APIKey key) = Inr (body, status)"
  shows "(300 \<le> status \<longrightarrow> ServeHTTP js p r = Responded status (Bytes body))
     \<and> (status < 300 \<longrightarrow>
          ServeHTTP js p r =
            (case Unmarshal js body of
               Inl e \<Rightarrow> Panicked e (Some status)
             | Inr parsed \<Rightarrow>
                 (case Filter parsed matches of
                    Inl e \<Rightarrow> Panicked e (Some status)
                  | Inr filtered \<Rightarrow>
                      (case Marshal js filtered of
                         Inl e \<Rightarrow> Panicked e (Some status)
                       | Inr output \<Rightarrow> Responded status (Bytes output)))))"
  using assms by (auto simp: ServeHTTP_def filterBytes_def split: sum.splits)

theorem response_shaping_witness:
  \<open>authenticate ((proxy_with candidates_key [''candidates'' \<mapsto> candidates_role])
                    \<lparr>Transport := upstream 200\<rparr>) (get ''/candidates/baz'')
     = Inr candidates_key
   \<and> match_roles [''candidates'' \<mapsto> candidates_role] (Roles candidates_key)
         ''/candidates/baz'' ''GET'' []
       = Matches [\<lparr>Methods = [''GET''], ResponseKeys = [''id'', ''jobs'', ''jobs/*'']\<rparr>]
   \<and> upstream 200 (get ''/candidates/baz'') (APIKey candidates_key)
       = Inr (''{"id":123,"secret":"stuff"}'', 200)
   \<and> ServeHTTP example_json
         ((proxy_with candidates_key [''candidates'' \<mapsto> candidates_role])
            \<lparr>Transport := upstream 200\<rparr>) (get ''/candidates/baz'')
       = Responded 200 (Bytes ''{"id":123}'')
   \<and> ServeHTTP example_json
         ((proxy_with candidates_key [''candidates'' \<mapsto> candidates_role])
            \<lparr>Transport := upstream 404\<rparr>) (get ''/candidates/baz'')
       = Responded 404 (Bytes ''{"id":123,"secret":"stuff"}'')\<close>
proof -
  let ?q = "proxy_with candidates_key [''candidates'' \<mapsto> candidates_role]"
  let ?r = "get ''/candidates/baz''"
  let ?rule = "\<lparr>Methods = [''GET''], ResponseKeys = [''id'', ''jobs'', ''jobs/*'']\<rparr>"
  have a: "authenticate (?q\<lparr>Transport := t\<rparr>) ?r = Inr candidates_key" for t
    by (simp add: authenticate_def proxy_with_def get_def)
  have mr: "match_roles [''candidates'' \<mapsto> candidates_role] (Roles candidates_key)
         ''/candidates/baz'' ''GET'' [] = Matches [?rule]"
    by (simp add: candidates_key_def candidates_role_def candidates_two_segments)
  have mr': "match_roles (ProxyRoles (?q\<lparr>Transport := t\<rparr>)) (Roles candidates_key)
         (URLPath ?r) (Method ?r) [] = Matches [?rule]" for t
    using mr by (simp add: proxy_with_def get_def)
  have ne: "[?rule] \<noteq> []" by simp
  have tr: "Transport (?q\<lparr>Transport := upstream s\<rparr>) ?r (APIKey candidates_key)
      = Inr (''{'' @ [CHR 0x22] @ ''id'' @ [CHR 0x22] @ '':123,'' @ [CHR 0x22] @ ''secret''
               @ [CHR 0x22] @ '':'' @ [CHR 0x22] @ ''stuff'' @ [CHR 0x22] @ ''}'', s)" for s
    by (simp add: upstream_def)
  have c1: "path_Match ''id'' (path_Join [''id'']) = Inr True" by code_simp
  have c2: "path_Match ''id'' (path_Join [''secret'']) = Inr False" by code_simp
  have c3: "path_Match ''jobs'' (path_Join [''secret'']) = Inr False" by code_simp
  have c4: "path_Match ''jobs/*'' (path_Join [''secret'']) = Inr False" by code_simp
  have fl: "Filter (JObject [(''id'', JNumber (123::nat)), (''secret'', JString ''stuff'')]) [?rule]
      = Inr (JObject [(''id'', JNumber 123)])"
    by (simp add: Filter_def checkFilter_def c1 c2 c3 c4)
  note t200 = response_shaping [OF a [of "upstream 200"] mr' [of "upstream 200"] ne tr [of 200],
      where js = example_json]
  note t404 = response_shaping [OF a [of "upstream 404"] mr' [of "upstream 404"] ne tr [of 404],
      where js = example_json]
  from t200 have s200: "ServeHTTP example_json (?q\<lparr>Transport := upstream 200\<rparr>) ?r
       = Responded 200 (Bytes (''{'' @ [CHR 0x22] @ ''id'' @ [CHR 0x22] @ '':123}''))"
    by (simp add: example_json_def fl)
  from t404 have s404: "ServeHTTP example_json (?q\<lparr>Transport := upstream 404\<rparr>) ?r
       = Responded 404 (Bytes (''{'' @ [CHR 0x22] @ ''id'' @ [CHR 0x22] @ '':123,'' @ [CHR 0x22] @ ''secret''
               @ [CHR 0x22] @ '':'' @ [CHR 0x22] @ ''stuff'' @ [CHR 0x22] @ ''}''))"
    by simp
  from a [of "upstream 200"] mr s200 s404 show ?thesis
    by (simp add: upstream_def)
qed

end
